theory Spec2Isabelle
  imports Complex_Main
begin

section \<open>Arrays, indices and the numpy primitives used by \<^verbatim>\<open>ops.py\<close>\<close>

text \<open>
  The module \<^verbatim>\<open>strawberryfields/backends/bosonicbackend/ops.py\<close> consists of eight
  functions over numpy arrays. A vector is a list of entries, a matrix the list of its
  rows, a batch the list of its matrices (leading axis first). Entries are an arbitrary
  type \<open>'a\<close>: the code only copies them and writes the constants \<open>0\<close> and \<open>1.0\<close>.
  The numeric type of an array (\<^verbatim>\<open>float64\<close> or \<^verbatim>\<open>complex128\<close>) and the conversions
  between the two are not modelled.
  An index sequence \<^verbatim>\<open>idtodelete\<close> is a list of Python integers, so it may hold
  negative numbers and repetitions.

  A list of rows does not record the number of columns of an array that has no rows.
  The empty list stands for the array all of whose axes have size \<open>0\<close>; wherever numpy
  reads an axis size from the shape, the model passes that size along explicitly.
\<close>

datatype error = IndexError | ValueError

definition dim1 :: "'a list list \<Rightarrow> nat" where
  "dim1 m = (case m of [] \<Rightarrow> 0 | row # _ \<Rightarrow> length row)"

definition dim2 :: "'a list list list \<Rightarrow> nat" where
  "dim2 m = (case m of [] \<Rightarrow> 0 | s # _ \<Rightarrow> dim1 s)"

text \<open>
  numpy accepts an integer index \<open>i\<close> on an axis of size \<open>N\<close> when \<open>-N \<le> i < N\<close>; a
  negative index counts from the end. Anything else raises \<^verbatim>\<open>IndexError\<close>.
\<close>

definition norm_index :: "nat \<Rightarrow> int \<Rightarrow> error + nat" where
  "norm_index N i =
     (if 0 \<le> i \<and> i < int N then Inr (nat i)
      else if - int N \<le> i \<and> i < 0 then Inr (nat (i + int N))
      else Inl IndexError)"

fun norm_indices :: "nat \<Rightarrow> int list \<Rightarrow> error + nat list" where
  "norm_indices N [] = Inr []"
| "norm_indices N (i # is) =
     (case norm_index N i of
        Inl e \<Rightarrow> Inl e
      | Inr j \<Rightarrow> (case norm_indices N is of Inl e \<Rightarrow> Inl e | Inr js \<Rightarrow> Inr (j # js)))"

text \<open>
  \<^verbatim>\<open>np.delete(arr, obj, axis)\<close> with a sequence of integers: the indices are checked
  against the size \<open>N\<close> of the axis, a boolean keep-mask of size \<open>N\<close> is cleared at each
  of them (so a repeated index clears the same position twice) and the positions still
  set are copied out in ascending order.
\<close>

definition delete_from :: "nat \<Rightarrow> nat list \<Rightarrow> 'a list \<Rightarrow> 'a list" where
  "delete_from N js xs = map (\<lambda>i. xs ! i) (filter (\<lambda>i. i \<notin> set js) [0..<N])"

definition np_delete0 :: "nat \<Rightarrow> 'a list \<Rightarrow> int list \<Rightarrow> error + 'a list" where
  "np_delete0 N arr obj =
     (case norm_indices N obj of Inl e \<Rightarrow> Inl e | Inr js \<Rightarrow> Inr (delete_from N js arr))"

definition np_delete1 :: "nat \<Rightarrow> 'a list list \<Rightarrow> int list \<Rightarrow> error + 'a list list" where
  "np_delete1 N arr obj =
     (case norm_indices N obj of Inl e \<Rightarrow> Inl e | Inr js \<Rightarrow> Inr (map (delete_from N js) arr))"

definition np_delete2 :: "nat \<Rightarrow> 'a list list list \<Rightarrow> int list \<Rightarrow> error + 'a list list list" where
  "np_delete2 N arr obj =
     (case norm_indices N obj of
        Inl e \<Rightarrow> Inl e
      | Inr js \<Rightarrow> Inr (map (map (delete_from N js)) arr))"

text \<open>
  Indexing with an integer sequence, \<^verbatim>\<open>arr[idx]\<close>, \<^verbatim>\<open>arr[:, idx]\<close> and
  \<^verbatim>\<open>arr[:, :, idx]\<close>: the entries at the given indices, in the given order, repetitions
  included.
\<close>

definition take_from :: "nat list \<Rightarrow> 'a list \<Rightarrow> 'a list" where
  "take_from js xs = map (\<lambda>j. xs ! j) js"

definition np_take0 :: "nat \<Rightarrow> 'a list \<Rightarrow> int list \<Rightarrow> error + 'a list" where
  "np_take0 N arr idx =
     (case norm_indices N idx of Inl e \<Rightarrow> Inl e | Inr js \<Rightarrow> Inr (take_from js arr))"

definition np_take1 :: "nat \<Rightarrow> 'a list list \<Rightarrow> int list \<Rightarrow> error + 'a list list" where
  "np_take1 N arr idx =
     (case norm_indices N idx of Inl e \<Rightarrow> Inl e | Inr js \<Rightarrow> Inr (map (take_from js) arr))"

definition np_take2 :: "nat \<Rightarrow> 'a list list list \<Rightarrow> int list \<Rightarrow> error + 'a list list list" where
  "np_take2 N arr idx =
     (case norm_indices N idx of
        Inl e \<Rightarrow> Inl e
      | Inr js \<Rightarrow> Inr (map (map (take_from js)) arr))"

text \<open>Reading \<^verbatim>\<open>m[i, j]\<close> with Python integers, and with loop counters.\<close>

definition getitem2 :: "'a list list \<Rightarrow> int \<Rightarrow> int \<Rightarrow> error + 'a" where
  "getitem2 m i j =
     (case norm_index (length m) i of
        Inl e \<Rightarrow> Inl e
      | Inr r \<Rightarrow> (case norm_index (dim1 m) j of Inl e \<Rightarrow> Inl e | Inr c \<Rightarrow> Inr (m ! r ! c)))"

definition getitem1 :: "'a list \<Rightarrow> nat \<Rightarrow> error + 'a" where
  "getitem1 v j = (if j < length v then Inr (v ! j) else Inl IndexError)"

definition getitem2n :: "'a list list \<Rightarrow> nat \<Rightarrow> nat \<Rightarrow> error + 'a" where
  "getitem2n m i j =
     (if i < length m \<and> j < dim1 m then Inr (m ! i ! j) else Inl IndexError)"

text \<open>Writing \<^verbatim>\<open>v[j] = a\<close> and \<^verbatim>\<open>m[i, j] = a\<close> with loop counters.\<close>

definition setitem1 :: "'a list \<Rightarrow> nat \<Rightarrow> 'a \<Rightarrow> error + 'a list" where
  "setitem1 v j a = (if j < length v then Inr (v[j := a]) else Inl IndexError)"

definition setitem2 :: "'a list list \<Rightarrow> nat \<Rightarrow> nat \<Rightarrow> 'a \<Rightarrow> error + 'a list list" where
  "setitem2 m i j a =
     (if i < length m \<and> j < dim1 m then Inr (m[i := (m ! i)[j := a]]) else Inl IndexError)"

text \<open>
  \<^verbatim>\<open>set(np.arange(n)) - set(idtodelete)\<close>: the members of the set, listed here in
  ascending order. An entry of \<^verbatim>\<open>idtodelete\<close> that is negative or not below \<open>n\<close> removes
  nothing, and a repeated entry removes its index once.

  Python does not fix the order in which a set is iterated. Every function that
  iterates this set or turns it into a list therefore takes the iteration order as its
  first argument \<open>iter\<close>: a function from the members (ascending) to the sequence the
  runtime yields.
\<close>

definition arange_minus :: "nat \<Rightarrow> int list \<Rightarrow> nat list" where
  "arange_minus n idtodelete = filter (\<lambda>i. int i \<notin> set idtodelete) [0..<n]"

text \<open>
  CPython yields the members of a set by hash-table slot, and a small non-negative
  integer hashes to itself. \<open>cpython_order_9\<close> is the order CPython 3 yields for
  \<^verbatim>\<open>set(np.arange(n)) - set(idtodelete)\<close> when \<open>n \<le> 9\<close>. A difference of at most four
  members lives in a table of eight slots: an index below \<open>8\<close> sits in the slot of its
  own number, and the index \<open>8\<close>, inserted last, probes the slots \<open>0, 1, 6, 7, 4, 5, 2, 3\<close>
  in turn and takes the first free one. A difference of five or more members lives in a
  table of \<open>32\<close> slots, every index in its own slot. So the order is ascending except for
  a set of at most four members that holds \<open>8\<close>: the set \<open>{1, 8}\<close> is iterated as
  \<open>8, 1\<close>.
\<close>

definition cpython_order_9 :: "nat list \<Rightarrow> nat list" where
  "cpython_order_9 ks =
     (if length ks \<le> 4 \<and> 8 \<in> set ks
      then (let s = hd (filter (\<lambda>i. i \<notin> set ks) [0, 1, 6, 7, 4, 5, 2, 3])
            in map (\<lambda>i. if i = s then 8 else i) (filter (\<lambda>i. i = s \<or> i \<in> set ks) [0..<8]))
      else ks)"

section \<open>Partition\<close>

text \<open>
  \<^verbatim>\<open>chop_in_blocks(m, idtodelete)\<close>. The two loops assign every cell of the
  uninitialised array \<^verbatim>\<open>C\<close> exactly once, row by row, so \<open>block_C\<close> builds the rows
  directly; a failing read stops it.
\<close>

fun mapE :: "('b \<Rightarrow> error + 'c) \<Rightarrow> 'b list \<Rightarrow> error + 'c list" where
  "mapE f [] = Inr []"
| "mapE f (x # xs) =
     (case f x of
        Inl e \<Rightarrow> Inl e
      | Inr y \<Rightarrow> (case mapE f xs of Inl e \<Rightarrow> Inl e | Inr ys \<Rightarrow> Inr (y # ys)))"

definition block_C :: "'a list list \<Rightarrow> int list \<Rightarrow> error + 'a list list" where
  "block_C m idtodelete =
     mapE (\<lambda>globalindex. mapE (\<lambda>globalindex1. getitem2 m globalindex globalindex1) idtodelete)
       idtodelete"

definition chop_in_blocks ::
  "'a list list \<Rightarrow> int list \<Rightarrow> error + 'a list list \<times> 'a list list \<times> 'a list list" where
  "chop_in_blocks m idtodelete =
     (case np_delete0 (length m) m idtodelete of Inl e \<Rightarrow> Inl e | Inr A0 \<Rightarrow>
     (case np_delete1 (dim1 m) A0 idtodelete of Inl e \<Rightarrow> Inl e | Inr A \<Rightarrow>
     (case np_take1 (dim1 m) m idtodelete of Inl e \<Rightarrow> Inl e | Inr mcols \<Rightarrow>
     (case np_delete0 (length m) mcols idtodelete of Inl e \<Rightarrow> Inl e | Inr B \<Rightarrow>
     (case block_C m idtodelete of Inl e \<Rightarrow> Inl e | Inr C \<Rightarrow> Inr (A, B, C))))))"

text \<open>\<^verbatim>\<open>chop_in_blocks_multi(m, idtodelete)\<close>, on a batch of shape \<open>(n_weights, n, n)\<close>.\<close>

definition chop_in_blocks_multi ::
  "'a list list list \<Rightarrow> int list \<Rightarrow>
     error + 'a list list list \<times> 'a list list list \<times> 'a list list list" where
  "chop_in_blocks_multi m idtodelete =
     (case np_delete1 (dim1 m) m idtodelete of Inl e \<Rightarrow> Inl e | Inr A0 \<Rightarrow>
     (case np_delete2 (dim2 m) A0 idtodelete of Inl e \<Rightarrow> Inl e | Inr A \<Rightarrow>
     (case np_take2 (dim2 m) m idtodelete of Inl e \<Rightarrow> Inl e | Inr mcols \<Rightarrow>
     (case np_delete1 (dim1 m) mcols idtodelete of Inl e \<Rightarrow> Inl e | Inr B \<Rightarrow>
     (case np_take1 (dim1 m) m idtodelete of Inl e \<Rightarrow> Inl e | Inr mrows \<Rightarrow>
     (case np_take2 (dim2 m) mrows idtodelete of Inl e \<Rightarrow> Inl e | Inr C \<Rightarrow>
        Inr (A, B, C)))))))"

text \<open>\<^verbatim>\<open>chop_in_blocks_vector(v, idtodelete)\<close>.\<close>

definition chop_in_blocks_vector ::
  "(nat list \<Rightarrow> nat list) \<Rightarrow> 'a list \<Rightarrow> int list \<Rightarrow> error + 'a list \<times> 'a list" where
  "chop_in_blocks_vector iter v idtodelete =
     (let idtokeep = iter (arange_minus (length v) idtodelete) in
      (case np_take0 (length v) v (map int idtokeep) of Inl e \<Rightarrow> Inl e | Inr va \<Rightarrow>
      (case np_take0 (length v) v idtodelete of Inl e \<Rightarrow> Inl e | Inr vb \<Rightarrow>
         Inr (va, vb))))"

text \<open>
  \<^verbatim>\<open>chop_in_blocks_vector_multi(v, idtodelete)\<close>, on a batch of shape \<open>(n_weights, n)\<close>;
  \<^verbatim>\<open>v[0]\<close> raises on an empty batch.
\<close>

definition chop_in_blocks_vector_multi ::
  "(nat list \<Rightarrow> nat list) \<Rightarrow> 'a list list \<Rightarrow> int list \<Rightarrow> error + 'a list list \<times> 'a list list" where
  "chop_in_blocks_vector_multi iter v idtodelete =
     (case v of
        [] \<Rightarrow> Inl IndexError
      | v0 # _ \<Rightarrow>
          (let idtokeep = iter (arange_minus (length v0) idtodelete) in
           (case np_take1 (length v0) v (map int idtokeep) of Inl e \<Rightarrow> Inl e | Inr va \<Rightarrow>
           (case np_take1 (length v0) v idtodelete of Inl e \<Rightarrow> Inl e | Inr vb \<Rightarrow>
              Inr (va, vb)))))"

section \<open>Reassemble\<close>

text \<open>
  \<^verbatim>\<open>reassemble(A, idtodelete)\<close>. \<open>reassemble_inner\<close> is the loop over
  \<^verbatim>\<open>enumerate(ind)\<close> for the columns, \<open>reassemble_outer\<close> the one for the rows, \<open>fill_diag\<close>
  the final loop over \<^verbatim>\<open>idtodelete\<close>.
\<close>

fun reassemble_inner ::
  "'a list list \<Rightarrow> nat \<Rightarrow> nat \<Rightarrow> (nat \<times> nat) list \<Rightarrow> 'a list list \<Rightarrow> error + 'a list list" where
  "reassemble_inner A i i1 [] newmat = Inr newmat"
| "reassemble_inner A i i1 ((j, j1) # rest) newmat =
     (case getitem2n A i j of Inl e \<Rightarrow> Inl e | Inr a \<Rightarrow>
     (case setitem2 newmat i1 j1 a of Inl e \<Rightarrow> Inl e | Inr newmat' \<Rightarrow>
        reassemble_inner A i i1 rest newmat'))"

fun reassemble_outer ::
  "'a list list \<Rightarrow> (nat \<times> nat) list \<Rightarrow> (nat \<times> nat) list \<Rightarrow> 'a list list \<Rightarrow> error + 'a list list" where
  "reassemble_outer A [] ind newmat = Inr newmat"
| "reassemble_outer A ((i, i1) # rest) ind newmat =
     (case reassemble_inner A i i1 ind newmat of Inl e \<Rightarrow> Inl e | Inr newmat' \<Rightarrow>
        reassemble_outer A rest ind newmat')"

fun fill_diag :: "int list \<Rightarrow> 'a::one list list \<Rightarrow> error + 'a list list" where
  "fill_diag [] newmat = Inr newmat"
| "fill_diag (i # rest) newmat =
     (case norm_index (length newmat) i of Inl e \<Rightarrow> Inl e | Inr r \<Rightarrow>
     (case norm_index (dim1 newmat) i of Inl e \<Rightarrow> Inl e | Inr c \<Rightarrow>
        fill_diag rest (newmat[r := (newmat ! r)[c := 1]])))"

definition reassemble ::
  "(nat list \<Rightarrow> nat list) \<Rightarrow> 'a::{zero,one} list list \<Rightarrow> int list \<Rightarrow> error + 'a list list" where
  "reassemble iter A idtodelete =
     (let ntot = length A + length idtodelete;
          ind = iter (arange_minus ntot idtodelete);
          newmat = replicate ntot (replicate ntot 0)
      in case reassemble_outer A (enumerate 0 ind) (enumerate 0 ind) newmat of
           Inl e \<Rightarrow> Inl e
         | Inr newmat' \<Rightarrow> fill_diag idtodelete newmat')"

text \<open>
  \<^verbatim>\<open>reassemble_multi(A, idtodelete)\<close>. \<^verbatim>\<open>A[:,0,0]\<close> raises when a slice has no row or
  no column, \<^verbatim>\<open>A[0]\<close> when the batch is empty. The template is a stack of identity
  matrices. The assignment through \<^verbatim>\<open>np.ix_\<close> broadcasts each slice of \<^verbatim>\<open>A\<close> to
  the \<open>L \<times> L\<close> shape of the target, \<open>L\<close> the number of kept indices (an axis of size \<open>1\<close>
  is repeated, any other size than \<open>L\<close> raises \<^verbatim>\<open>ValueError\<close>), and writes entry
  \<open>(i, j)\<close> to position \<open>(ind[i], ind[j])\<close>.
\<close>

definition eye :: "nat \<Rightarrow> 'a::{zero,one} list list" where
  "eye n = map (\<lambda>i. map (\<lambda>j. if i = j then 1 else 0) [0..<n]) [0..<n]"

definition broadcastable :: "nat \<Rightarrow> nat \<Rightarrow> bool" where
  "broadcastable r L = (r = L \<or> r = 1)"

definition broadcast1 :: "nat \<Rightarrow> 'a list \<Rightarrow> 'a list" where
  "broadcast1 L xs = map (\<lambda>j. xs ! (if length xs = L then j else 0)) [0..<L]"

definition broadcast2 :: "nat \<Rightarrow> 'a list list \<Rightarrow> 'a list list" where
  "broadcast2 L m = map (broadcast1 L) (broadcast1 L m)"

definition reassemble_multi ::
  "(nat list \<Rightarrow> nat list) \<Rightarrow> 'a::{zero,one} list list list \<Rightarrow> int list \<Rightarrow>
     error + 'a list list list" where
  "reassemble_multi iter A idtodelete =
     (case A of
        [] \<Rightarrow> Inl IndexError
      | A0 # _ \<Rightarrow>
          if length A0 = 0 \<or> dim1 A0 = 0 then Inl IndexError
          else
            (let ntot = length A0 + length idtodelete;
                 ind = iter (arange_minus ntot idtodelete)
             in if broadcastable (length A0) (length ind) \<and> broadcastable (dim1 A0) (length ind)
                then mapE (\<lambda>Aw. reassemble_outer (broadcast2 (length ind) Aw)
                                   (enumerate 0 ind) (enumerate 0 ind) (eye ntot)) A
                else Inl ValueError))"

text \<open>\<^verbatim>\<open>reassemble_vector(va, idtodelete)\<close>.\<close>

fun reassemble_vector_loop ::
  "'a list \<Rightarrow> (nat \<times> nat) list \<Rightarrow> 'a list \<Rightarrow> error + 'a list" where
  "reassemble_vector_loop va [] newv = Inr newv"
| "reassemble_vector_loop va ((j, j1) # rest) newv =
     (case getitem1 va j of Inl e \<Rightarrow> Inl e | Inr a \<Rightarrow>
     (case setitem1 newv j1 a of Inl e \<Rightarrow> Inl e | Inr newv' \<Rightarrow>
        reassemble_vector_loop va rest newv'))"

definition reassemble_vector ::
  "(nat list \<Rightarrow> nat list) \<Rightarrow> 'a::zero list \<Rightarrow> int list \<Rightarrow> error + 'a list" where
  "reassemble_vector iter va idtodelete =
     (let ntot = length va + length idtodelete;
          ind = iter (arange_minus ntot idtodelete);
          newv = replicate ntot 0
      in reassemble_vector_loop va (enumerate 0 ind) newv)"

text \<open>
  \<^verbatim>\<open>reassemble_vector_multi(va, idtodelete)\<close>. \<^verbatim>\<open>va[:,0]\<close> raises when the vectors are
  empty, \<^verbatim>\<open>va[0]\<close> when the batch is empty; \<^verbatim>\<open>newv[:,ind] = va\<close> broadcasts as above.
\<close>

definition reassemble_vector_multi ::
  "(nat list \<Rightarrow> nat list) \<Rightarrow> 'a::zero list list \<Rightarrow> int list \<Rightarrow> error + 'a list list" where
  "reassemble_vector_multi iter va idtodelete =
     (case va of
        [] \<Rightarrow> Inl IndexError
      | va0 # _ \<Rightarrow>
          if length va0 = 0 then Inl IndexError
          else
            (let ntot = length va0 + length idtodelete;
                 ind = iter (arange_minus ntot idtodelete)
             in if broadcastable (length va0) (length ind)
                then mapE (\<lambda>vw. reassemble_vector_loop (broadcast1 (length ind) vw)
                                   (enumerate 0 ind) (replicate ntot 0)) va
                else Inl ValueError))"

section \<open>The operations over a store of arrays\<close>

text \<open>
  The functions above compute with array values. To say which arrays a call reads,
  writes and creates, the eight functions are written once more over a store: the list
  of the arrays that exist, the reference to an array being its position in the list.
  An array of the store is a vector, a matrix or a batch.
\<close>

datatype 'a ndarray = Arr1 "'a list" | Arr2 "'a list list" | Arr3 "'a list list list"

text \<open>
  The contents behind a reference that is used as a vector, as a matrix or as a batch.
  The operations are only called with references to arrays of the rank they expect.
\<close>

fun vec_of :: "'a ndarray \<Rightarrow> 'a list" where
  "vec_of (Arr1 v) = v"
| "vec_of _ = []"

fun mat_of :: "'a ndarray \<Rightarrow> 'a list list" where
  "mat_of (Arr2 m) = m"
| "mat_of _ = []"

fun batch_of :: "'a ndarray \<Rightarrow> 'a list list list" where
  "batch_of (Arr3 b) = b"
| "batch_of _ = []"

text \<open>
  \<^verbatim>\<open>np.copy\<close>, \<^verbatim>\<open>np.delete\<close>, indexing with an integer sequence, \<^verbatim>\<open>np.empty\<close>,
  \<^verbatim>\<open>np.zeros\<close>, \<^verbatim>\<open>np.eye\<close> and \<^verbatim>\<open>np.tile\<close> all return a new array: \<open>new_array\<close>
  appends it to the store and returns its reference. An assignment
  \<^verbatim>\<open>arr[...] = x\<close> replaces the contents at the reference of \<^verbatim>\<open>arr\<close>. The expressions
  \<^verbatim>\<open>A[0]\<close>, \<^verbatim>\<open>A[:,0,0]\<close>, \<^verbatim>\<open>v[0]\<close> and \<^verbatim>\<open>va[:,0]\<close> are views that are only
  measured; index lists, sets and ranges are values, not arrays of the store. The
  contents of the array that \<^verbatim>\<open>np.empty\<close> returns are arbitrary; the model writes \<open>0\<close>,
  and the loops of \<open>chop_in_blocks\<close> assign every cell before the array is returned.
\<close>

definition new_array :: "'a ndarray \<Rightarrow> 'a ndarray list \<Rightarrow> nat \<times> 'a ndarray list" where
  "new_array x s = (length s, s @ [x])"

text \<open>\<^verbatim>\<open>chop_in_blocks\<close> over the store, statement by statement.\<close>

fun chop_inner_st ::
  "nat \<Rightarrow> nat \<Rightarrow> nat \<Rightarrow> int \<Rightarrow> (nat \<times> int) list \<Rightarrow> 'a ndarray list \<Rightarrow> error + 'a ndarray list" where
  "chop_inner_st m C localindex globalindex [] s = Inr s"
| "chop_inner_st m C localindex globalindex ((localindex1, globalindex1) # rest) s =
     (case getitem2 (mat_of (s ! m)) globalindex globalindex1 of Inl e \<Rightarrow> Inl e | Inr a \<Rightarrow>
     (case setitem2 (mat_of (s ! C)) localindex localindex1 a of Inl e \<Rightarrow> Inl e | Inr C' \<Rightarrow>
        chop_inner_st m C localindex globalindex rest (s[C := Arr2 C'])))"

fun chop_outer_st ::
  "nat \<Rightarrow> nat \<Rightarrow> (nat \<times> int) list \<Rightarrow> (nat \<times> int) list \<Rightarrow> 'a ndarray list \<Rightarrow> error + 'a ndarray list" where
  "chop_outer_st m C [] ids s = Inr s"
| "chop_outer_st m C ((localindex, globalindex) # rest) ids s =
     (case chop_inner_st m C localindex globalindex ids s of Inl e \<Rightarrow> Inl e | Inr s' \<Rightarrow>
        chop_outer_st m C rest ids s')"

definition chop_in_blocks_st ::
  "nat \<Rightarrow> int list \<Rightarrow> 'a::zero ndarray list \<Rightarrow> error + (nat \<times> nat \<times> nat) \<times> 'a ndarray list" where
  "chop_in_blocks_st m idtodelete s =
     (let n0 = length (mat_of (s ! m)); n1 = dim1 (mat_of (s ! m));
          (A, s) = new_array (Arr2 (mat_of (s ! m))) s
      in case np_delete0 n0 (mat_of (s ! A)) idtodelete of Inl e \<Rightarrow> Inl e | Inr x \<Rightarrow>
        (let (A, s) = new_array (Arr2 x) s
         in case np_delete1 n1 (mat_of (s ! A)) idtodelete of Inl e \<Rightarrow> Inl e | Inr x \<Rightarrow>
           (let (A, s) = new_array (Arr2 x) s
            in case np_take1 n1 (mat_of (s ! m)) idtodelete of Inl e \<Rightarrow> Inl e | Inr x \<Rightarrow>
              (let (t, s) = new_array (Arr2 x) s
               in case np_delete0 n0 (mat_of (s ! t)) idtodelete of Inl e \<Rightarrow> Inl e | Inr x \<Rightarrow>
                 (let (B, s) = new_array (Arr2 x) s;
                      k = length idtodelete;
                      (C, s) = new_array (Arr2 (replicate k (replicate k 0))) s
                  in case chop_outer_st m C (enumerate 0 idtodelete) (enumerate 0 idtodelete) s of
                       Inl e \<Rightarrow> Inl e
                     | Inr s \<Rightarrow> Inr ((A, B, C), s))))))"

text \<open>\<^verbatim>\<open>chop_in_blocks_multi\<close>, \<^verbatim>\<open>chop_in_blocks_vector\<close> and \<^verbatim>\<open>chop_in_blocks_vector_multi\<close> over the store.\<close>

definition chop_in_blocks_multi_st ::
  "nat \<Rightarrow> int list \<Rightarrow> 'a ndarray list \<Rightarrow> error + (nat \<times> nat \<times> nat) \<times> 'a ndarray list" where
  "chop_in_blocks_multi_st m idtodelete s =
     (let n1 = dim1 (batch_of (s ! m)); n2 = dim2 (batch_of (s ! m));
          (A, s) = new_array (Arr3 (batch_of (s ! m))) s
      in case np_delete1 n1 (batch_of (s ! A)) idtodelete of Inl e \<Rightarrow> Inl e | Inr x \<Rightarrow>
        (let (A, s) = new_array (Arr3 x) s
         in case np_delete2 n2 (batch_of (s ! A)) idtodelete of Inl e \<Rightarrow> Inl e | Inr x \<Rightarrow>
           (let (A, s) = new_array (Arr3 x) s
            in case np_take2 n2 (batch_of (s ! m)) idtodelete of Inl e \<Rightarrow> Inl e | Inr x \<Rightarrow>
              (let (t, s) = new_array (Arr3 x) s
               in case np_delete1 n1 (batch_of (s ! t)) idtodelete of Inl e \<Rightarrow> Inl e | Inr x \<Rightarrow>
                 (let (B, s) = new_array (Arr3 x) s
                  in case np_take1 n1 (batch_of (s ! m)) idtodelete of Inl e \<Rightarrow> Inl e | Inr x \<Rightarrow>
                    (let (t, s) = new_array (Arr3 x) s
                     in case np_take2 n2 (batch_of (s ! t)) idtodelete of Inl e \<Rightarrow> Inl e | Inr x \<Rightarrow>
                       (let (C, s) = new_array (Arr3 x) s
                        in Inr ((A, B, C), s))))))))"

definition chop_in_blocks_vector_st ::
  "(nat list \<Rightarrow> nat list) \<Rightarrow> nat \<Rightarrow> int list \<Rightarrow> 'a ndarray list \<Rightarrow>
     error + (nat \<times> nat) \<times> 'a ndarray list" where
  "chop_in_blocks_vector_st iter v idtodelete s =
     (let n = length (vec_of (s ! v));
          idtokeep = iter (arange_minus n idtodelete)
      in case np_take0 n (vec_of (s ! v)) (map int idtokeep) of Inl e \<Rightarrow> Inl e | Inr x \<Rightarrow>
        (let (va, s) = new_array (Arr1 x) s
         in case np_take0 n (vec_of (s ! v)) idtodelete of Inl e \<Rightarrow> Inl e | Inr x \<Rightarrow>
           (let (vb, s) = new_array (Arr1 x) s
            in Inr ((va, vb), s))))"

definition chop_in_blocks_vector_multi_st ::
  "(nat list \<Rightarrow> nat list) \<Rightarrow> nat \<Rightarrow> int list \<Rightarrow> 'a ndarray list \<Rightarrow>
     error + (nat \<times> nat) \<times> 'a ndarray list" where
  "chop_in_blocks_vector_multi_st iter v idtodelete s =
     (case mat_of (s ! v) of
        [] \<Rightarrow> Inl IndexError
      | v0 # _ \<Rightarrow>
          (let n = length v0;
               idtokeep = iter (arange_minus n idtodelete)
           in case np_take1 n (mat_of (s ! v)) (map int idtokeep) of Inl e \<Rightarrow> Inl e | Inr x \<Rightarrow>
             (let (va, s) = new_array (Arr2 x) s
              in case np_take1 n (mat_of (s ! v)) idtodelete of Inl e \<Rightarrow> Inl e | Inr x \<Rightarrow>
                (let (vb, s) = new_array (Arr2 x) s
                 in Inr ((va, vb), s)))))"

text \<open>
  The reassemble operations over the store. The loops of \<^verbatim>\<open>reassemble\<close> and
  \<^verbatim>\<open>reassemble_vector\<close> read the input array and write the new one cell by cell; the
  batched operations write the kept positions of the new array in one assignment.
\<close>

fun reassemble_inner_st ::
  "nat \<Rightarrow> nat \<Rightarrow> nat \<Rightarrow> nat \<Rightarrow> (nat \<times> nat) list \<Rightarrow> 'a ndarray list \<Rightarrow> error + 'a ndarray list" where
  "reassemble_inner_st A newmat i i1 [] s = Inr s"
| "reassemble_inner_st A newmat i i1 ((j, j1) # rest) s =
     (case getitem2n (mat_of (s ! A)) i j of Inl e \<Rightarrow> Inl e | Inr a \<Rightarrow>
     (case setitem2 (mat_of (s ! newmat)) i1 j1 a of Inl e \<Rightarrow> Inl e | Inr newmat' \<Rightarrow>
        reassemble_inner_st A newmat i i1 rest (s[newmat := Arr2 newmat'])))"

fun reassemble_outer_st ::
  "nat \<Rightarrow> nat \<Rightarrow> (nat \<times> nat) list \<Rightarrow> (nat \<times> nat) list \<Rightarrow> 'a ndarray list \<Rightarrow> error + 'a ndarray list" where
  "reassemble_outer_st A newmat [] ind s = Inr s"
| "reassemble_outer_st A newmat ((i, i1) # rest) ind s =
     (case reassemble_inner_st A newmat i i1 ind s of Inl e \<Rightarrow> Inl e | Inr s' \<Rightarrow>
        reassemble_outer_st A newmat rest ind s')"

fun fill_diag_st :: "nat \<Rightarrow> int list \<Rightarrow> 'a::one ndarray list \<Rightarrow> error + 'a ndarray list" where
  "fill_diag_st newmat [] s = Inr s"
| "fill_diag_st newmat (i # rest) s =
     (case norm_index (length (mat_of (s ! newmat))) i of Inl e \<Rightarrow> Inl e | Inr r \<Rightarrow>
     (case norm_index (dim1 (mat_of (s ! newmat))) i of Inl e \<Rightarrow> Inl e | Inr c \<Rightarrow>
        fill_diag_st newmat rest
          (s[newmat := Arr2 ((mat_of (s ! newmat))[r := (mat_of (s ! newmat) ! r)[c := 1]])])))"

definition reassemble_st ::
  "(nat list \<Rightarrow> nat list) \<Rightarrow> nat \<Rightarrow> int list \<Rightarrow> 'a::{zero,one} ndarray list \<Rightarrow>
     error + nat \<times> 'a ndarray list" where
  "reassemble_st iter A idtodelete s =
     (let ntot = length (mat_of (s ! A)) + length idtodelete;
          ind = iter (arange_minus ntot idtodelete);
          (newmat, s) = new_array (Arr2 (replicate ntot (replicate ntot 0))) s
      in case reassemble_outer_st A newmat (enumerate 0 ind) (enumerate 0 ind) s of
           Inl e \<Rightarrow> Inl e
         | Inr s \<Rightarrow>
             (case fill_diag_st newmat idtodelete s of
                Inl e \<Rightarrow> Inl e
              | Inr s \<Rightarrow> Inr (newmat, s)))"

definition reassemble_multi_st ::
  "(nat list \<Rightarrow> nat list) \<Rightarrow> nat \<Rightarrow> int list \<Rightarrow> 'a::{zero,one} ndarray list \<Rightarrow>
     error + nat \<times> 'a ndarray list" where
  "reassemble_multi_st iter A idtodelete s =
     (case batch_of (s ! A) of
        [] \<Rightarrow> Inl IndexError
      | A0 # _ \<Rightarrow>
          if length A0 = 0 \<or> dim1 A0 = 0 then Inl IndexError
          else
            (let nweights = length (batch_of (s ! A));
                 ntot = length A0 + length idtodelete;
                 ind = iter (arange_minus ntot idtodelete);
                 (e, s) = new_array (Arr2 (eye ntot)) s;
                 (newmat, s) = new_array (Arr3 (replicate nweights (mat_of (s ! e)))) s
             in if broadcastable (length A0) (length ind) \<and> broadcastable (dim1 A0) (length ind)
                then case mapE (\<lambda>(Nw, Aw). reassemble_outer (broadcast2 (length ind) Aw)
                                    (enumerate 0 ind) (enumerate 0 ind) Nw)
                            (zip (batch_of (s ! newmat)) (batch_of (s ! A))) of
                       Inl e \<Rightarrow> Inl e
                     | Inr x \<Rightarrow> Inr (newmat, s[newmat := Arr3 x])
                else Inl ValueError))"

fun reassemble_vector_loop_st ::
  "nat \<Rightarrow> nat \<Rightarrow> (nat \<times> nat) list \<Rightarrow> 'a ndarray list \<Rightarrow> error + 'a ndarray list" where
  "reassemble_vector_loop_st va newv [] s = Inr s"
| "reassemble_vector_loop_st va newv ((j, j1) # rest) s =
     (case getitem1 (vec_of (s ! va)) j of Inl e \<Rightarrow> Inl e | Inr a \<Rightarrow>
     (case setitem1 (vec_of (s ! newv)) j1 a of Inl e \<Rightarrow> Inl e | Inr newv' \<Rightarrow>
        reassemble_vector_loop_st va newv rest (s[newv := Arr1 newv'])))"

definition reassemble_vector_st ::
  "(nat list \<Rightarrow> nat list) \<Rightarrow> nat \<Rightarrow> int list \<Rightarrow> 'a::zero ndarray list \<Rightarrow>
     error + nat \<times> 'a ndarray list" where
  "reassemble_vector_st iter va idtodelete s =
     (let ntot = length (vec_of (s ! va)) + length idtodelete;
          ind = iter (arange_minus ntot idtodelete);
          (newv, s) = new_array (Arr1 (replicate ntot 0)) s
      in case reassemble_vector_loop_st va newv (enumerate 0 ind) s of
           Inl e \<Rightarrow> Inl e
         | Inr s \<Rightarrow> Inr (newv, s))"

definition reassemble_vector_multi_st ::
  "(nat list \<Rightarrow> nat list) \<Rightarrow> nat \<Rightarrow> int list \<Rightarrow> 'a::zero ndarray list \<Rightarrow>
     error + nat \<times> 'a ndarray list" where
  "reassemble_vector_multi_st iter va idtodelete s =
     (case mat_of (s ! va) of
        [] \<Rightarrow> Inl IndexError
      | va0 # _ \<Rightarrow>
          if length va0 = 0 then Inl IndexError
          else
            (let nweights = length (mat_of (s ! va));
                 ntot = length va0 + length idtodelete;
                 ind = iter (arange_minus ntot idtodelete);
                 (newv, s) = new_array (Arr2 (replicate nweights (replicate ntot 0))) s
             in if broadcastable (length va0) (length ind)
                then case mapE (\<lambda>(nw, vw). reassemble_vector_loop (broadcast1 (length ind) vw)
                                    (enumerate 0 ind) nw)
                            (zip (mat_of (s ! newv)) (mat_of (s ! va))) of
                       Inl e \<Rightarrow> Inl e
                     | Inr x \<Rightarrow> Inr (newv, s[newv := Arr2 x])
                else Inl ValueError))"

text \<open>
  What a call may do to the store \<open>s\<close> it starts in: every array of \<open>s\<close> is in the
  store \<open>s'\<close> it ends in, at the same reference and with the same contents, and the
  references \<open>outs\<close> it returns are distinct references to arrays that did not exist
  in \<open>s\<close>.
\<close>

definition fresh_call :: "'a ndarray list \<Rightarrow> nat list \<Rightarrow> 'a ndarray list \<Rightarrow> bool" where
  "fresh_call s outs s' \<longleftrightarrow>
     take (length s) s' = s \<and> distinct outs \<and> list_all (\<lambda>r. length s \<le> r \<and> r < length s') outs"

text \<open>A store holding one input for each of the eight operations.\<close>

definition example_store :: "real ndarray list" where
  "example_store =
     [Arr2 [[1, 2, 3], [2, 4, 5], [3, 5, 6]],
      Arr3 [[[1, 2, 3], [2, 4, 5], [3, 5, 6]]],
      Arr1 [10, 20, 30],
      Arr2 [[10, 20, 30]],
      Arr2 [[1, 3], [3, 6]],
      Arr3 [[[1, 3], [3, 6]]],
      Arr1 [10, 30],
      Arr2 [[10, 30]]]"

section \<open>Valid index sequences\<close>

text \<open>
  The properties below are about a valid \<^verbatim>\<open>idtodelete\<close>: distinct indices below the full
  dimension \<open>n\<close>. Such a sequence is written \<open>map int ks\<close> for a list \<open>ks\<close> of natural
  numbers; the kept indices in ascending order are \<open>filter (\<lambda>i. i \<notin> set ks) [0..<n]\<close>.
\<close>

lemma norm_indices_nat: "\<forall>k\<in>set ks. k < n \<Longrightarrow> norm_indices n (map int ks) = Inr ks"
  by (induction ks) (auto simp: norm_index_def)

lemma arange_minus_nat: "arange_minus n (map int ks) = filter (\<lambda>i. i \<notin> set ks) [0..<n]"
  unfolding arange_minus_def by (rule filter_cong) auto

lemma length_kept:
  assumes "distinct ks" and "\<forall>k\<in>set ks. k < n"
  shows "length (filter (\<lambda>i. i \<notin> set ks) [0..<n]) = n - length ks"
proof -
  have "length (filter (\<lambda>i. i \<notin> set ks) [0..<n]) = card (set (filter (\<lambda>i. i \<notin> set ks) [0..<n]))"
    by (rule distinct_card [symmetric]) simp
  also have "set (filter (\<lambda>i. i \<notin> set ks) [0..<n]) = {0..<n} - set ks"
    by auto
  also have "card ({0..<n} - set ks) = card {0..<n} - card (set ks)"
    using assms(2) by (intro card_Diff_subset) auto
  also have "\<dots> = n - length ks"
    using assms(1) by (simp add: distinct_card)
  finally show ?thesis .
qed

lemma dim1_square: "length m = n \<Longrightarrow> \<forall>row\<in>set m. length row = n \<Longrightarrow> dim1 m = n"
  by (cases m) (auto simp: dim1_def)

lemma mapE_Inr: "\<forall>x\<in>set xs. f x = Inr (g x) \<Longrightarrow> mapE f xs = Inr (map g xs)"
  by (induction xs) auto

section \<open>The blocks of \<open>chop_in_blocks\<close>\<close>

lemma getitem2_nat:
  "i < length m \<Longrightarrow> j < dim1 m \<Longrightarrow> getitem2 m (int i) (int j) = Inr (m ! i ! j)"
  by (simp add: getitem2_def norm_index_def)

lemma block_C_nat:
  assumes "\<forall>k\<in>set ks. k < length m" and "\<forall>k\<in>set ks. k < dim1 m"
  shows "block_C m (map int ks) = Inr (map (\<lambda>i. map (\<lambda>j. m ! i ! j) ks) ks)"
proof -
  have inner: "mapE (\<lambda>g1. getitem2 m (int i) g1) (map int ks) = Inr (map (\<lambda>j. m ! i ! j) ks)"
    if "i \<in> set ks" for i
  proof -
    have "mapE (\<lambda>g1. getitem2 m (int i) g1) (map int ks)
          = Inr (map (\<lambda>g1. m ! i ! nat g1) (map int ks))"
      using assms that by (intro mapE_Inr) (auto simp: getitem2_nat)
    then show ?thesis by (simp add: comp_def)
  qed
  have "block_C m (map int ks)
        = Inr (map (\<lambda>g. map (\<lambda>j. m ! nat g ! j) ks) (map int ks))"
    unfolding block_C_def using inner by (intro mapE_Inr) auto
  then show ?thesis by (simp add: comp_def)
qed

lemma chop_in_blocks_valid:
  assumes "length m = n" and "\<forall>row\<in>set m. length row = n"
    and "\<forall>k\<in>set ks. k < n"
  shows "chop_in_blocks m (map int ks) =
           Inr (map (\<lambda>i. map (\<lambda>j. m ! i ! j) (filter (\<lambda>j. j \<notin> set ks) [0..<n]))
                  (filter (\<lambda>i. i \<notin> set ks) [0..<n]),
                map (\<lambda>i. map (\<lambda>j. m ! i ! j) ks) (filter (\<lambda>i. i \<notin> set ks) [0..<n]),
                map (\<lambda>i. map (\<lambda>j. m ! i ! j) ks) ks)"
proof -
  have d: "dim1 m = n" using assms(1,2) by (rule dim1_square)
  have C: "block_C m (map int ks) = Inr (map (\<lambda>i. map (\<lambda>j. m ! i ! j) ks) ks)"
    using assms d by (intro block_C_nat) auto
  show ?thesis
    unfolding chop_in_blocks_def
    using assms(1,3)
    by (simp add: d C np_delete0_def np_delete1_def np_take1_def norm_indices_nat
        delete_from_def take_from_def comp_def)
qed




section \<open>The loops of \<open>reassemble\<close> as scattered writes\<close>

text \<open>
  A loop that writes, for each pair \<open>q\<close> of a list, position \<open>snd q\<close> of a list is a
  \<open>fold\<close> of updates. When the written positions are distinct, each of them ends up
  holding the value computed for its own pair and every other position is unchanged.
\<close>

lemma fold_upd_length:
  "length (fold (\<lambda>q xs. xs[snd q := F q (xs ! snd q)]) qs xs) = length xs"
  by (induction qs arbitrary: xs) auto

lemma fold_upd_other:
  "r \<notin> snd ` set qs \<Longrightarrow> fold (\<lambda>q xs. xs[snd q := F q (xs ! snd q)]) qs xs ! r = xs ! r"
  by (induction qs arbitrary: xs) auto

lemma fold_upd_hit:
  "distinct (map snd qs) \<Longrightarrow> q \<in> set qs \<Longrightarrow> snd q < length xs \<Longrightarrow>
   fold (\<lambda>q xs. xs[snd q := F q (xs ! snd q)]) qs xs ! snd q = F q (xs ! snd q)"
proof (induction qs arbitrary: xs)
  case Nil
  then show ?case by simp
next
  case (Cons p qs)
  show ?case
  proof (cases "q = p")
    case True
    with Cons.prems have "snd q \<notin> snd ` set qs" by auto
    then show ?thesis using True Cons.prems(3) by (simp add: fold_upd_other)
  next
    case False
    with Cons.prems have q: "q \<in> set qs" and ne: "snd p \<noteq> snd q" by force+
    have "fold (\<lambda>q xs. xs[snd q := F q (xs ! snd q)]) qs (xs[snd p := F p (xs ! snd p)]) ! snd q
          = F q ((xs[snd p := F p (xs ! snd p)]) ! snd q)"
      using Cons.prems q by (intro Cons.IH) auto
    then show ?thesis using ne by simp
  qed
qed

lemma dim1_update: "length row = length (m ! i) \<Longrightarrow> dim1 (m[i := row]) = dim1 m"
  by (cases m; cases i) (auto simp: dim1_def)

lemma reassemble_inner_fold:
  "i < length A \<Longrightarrow> i1 < length M \<Longrightarrow> \<forall>p\<in>set ps. fst p < dim1 A \<and> snd p < dim1 M \<Longrightarrow>
   reassemble_inner A i i1 ps M
     = Inr (M[i1 := fold (\<lambda>p row. row[snd p := A ! i ! fst p]) ps (M ! i1)])"
proof (induction ps arbitrary: M)
  case Nil
  then show ?case by simp
next
  case (Cons p ps)
  obtain j j1 where p: "p = (j, j1)" by (cases p)
  let ?M = "M[i1 := (M ! i1)[j1 := A ! i ! j]]"
  have d: "dim1 ?M = dim1 M" by (rule dim1_update) simp
  have "reassemble_inner A i i1 ps ?M
        = Inr (?M[i1 := fold (\<lambda>p row. row[snd p := A ! i ! fst p]) ps (?M ! i1)])"
    using Cons.prems d by (intro Cons.IH) auto
  then show ?case using Cons.prems p
    by (simp add: getitem2n_def setitem2_def)
qed

lemma reassemble_outer_fold:
  "\<forall>q\<in>set qs. fst q < length A \<and> snd q < length M \<Longrightarrow>
   \<forall>p\<in>set ps. fst p < dim1 A \<and> snd p < dim1 M \<Longrightarrow>
   reassemble_outer A qs ps M
     = Inr (fold (\<lambda>q M. M[snd q := fold (\<lambda>p row. row[snd p := A ! fst q ! fst p]) ps (M ! snd q)])
              qs M)"
proof (induction qs arbitrary: M)
  case Nil
  then show ?case by simp
next
  case (Cons q qs)
  obtain i i1 where q: "q = (i, i1)" by (cases q)
  let ?row = "fold (\<lambda>p row. row[snd p := A ! i ! fst p]) ps (M ! i1)"
  let ?M = "M[i1 := ?row]"
  have len: "length ?row = length (M ! i1)"
    using fold_upd_length [where F = "\<lambda>p _. A ! i ! fst p"] by simp
  have d: "dim1 ?M = dim1 M" using len by (rule dim1_update)
  have inner: "reassemble_inner A i i1 ps M = Inr ?M"
    using Cons.prems q by (intro reassemble_inner_fold) auto
  have "reassemble_outer A qs ps ?M
        = Inr (fold (\<lambda>q M. M[snd q := fold (\<lambda>p row. row[snd p := A ! fst q ! fst p]) ps (M ! snd q)])
              qs ?M)"
    using Cons.prems d by (intro Cons.IH) auto
  then show ?case using q inner by simp
qed


lemma reassemble_outer_enum:
  assumes "distinct ind" and "\<forall>x\<in>set ind. x < n"
    and "length ind \<le> length A" and "length ind \<le> dim1 A"
    and "length M = n" and "\<forall>row\<in>set M. length row = n"
  shows "\<exists>M'. reassemble_outer A (enumerate 0 ind) (enumerate 0 ind) M = Inr M'
           \<and> length M' = n
           \<and> (\<forall>r<n. length (M' ! r) = n)
           \<and> (\<forall>a<length ind. \<forall>b<length ind. M' ! (ind ! a) ! (ind ! b) = A ! a ! b)
           \<and> (\<forall>r c. r \<notin> set ind \<or> c \<notin> set ind \<longrightarrow> M' ! r ! c = M ! r ! c)"
proof -
  let ?en = "enumerate 0 ind"
  let ?rowf = "\<lambda>q row. fold (\<lambda>p row. row[snd p := A ! fst q ! fst p]) ?en row"
  let ?M' = "fold (\<lambda>q M. M[snd q := ?rowf q (M ! snd q)]) ?en M"
  have d: "dim1 M = n" using assms(5,6) by (rule dim1_square)
  have snd_en: "snd ` set ?en = set ind"
    by (metis map_snd_enumerate set_map)
  have dist_en: "distinct (map snd ?en)" using assms(1) by simp
  have mem: "(a, ind ! a) \<in> set ?en" if "a < length ind" for a
    using that by (simp add: in_set_enumerate_eq)
  have bounds: "\<forall>q\<in>set ?en. fst q < length ind \<and> snd q < n"
    using assms(2) by (auto simp: in_set_enumerate_eq)
  have rowlen: "length (M ! r) = n" if "r < n" for r
    using assms(5,6) that by auto
  have run: "reassemble_outer A ?en ?en M = Inr ?M'"
    using bounds assms(3,4,5) d by (intro reassemble_outer_fold) auto
  have len: "length ?M' = n"
    using fold_upd_length [where F = ?rowf and qs = ?en and xs = M] assms(5) by simp
  let ?rowi = "\<lambda>i row. fold (\<lambda>p row. row[snd p := A ! i ! fst p]) ?en row"
  have rowf_len: "length (?rowi i row) = length row" for i row
    using fold_upd_length [where F = "\<lambda>p _. A ! i ! fst p" and qs = ?en and xs = row] by simp
  have other_row: "?M' ! r = M ! r" if "r \<notin> set ind" for r
    using fold_upd_other [where F = ?rowf and qs = ?en and xs = M and r = r] that snd_en by simp
  have hit_row: "?M' ! (ind ! a) = ?rowi a (M ! (ind ! a))" if "a < length ind" for a
    using fold_upd_hit [where F = ?rowf and qs = ?en and xs = M and q = "(a, ind ! a)"]
      dist_en mem [OF that] assms(2,5) that by simp
  have other_col: "?rowi i row ! c = row ! c" if "c \<notin> set ind" for i row c
    using fold_upd_other [where F = "\<lambda>p _. A ! i ! fst p" and qs = ?en and xs = row and r = c]
      that snd_en by simp
  have hit_col: "?rowi i row ! (ind ! b) = A ! i ! b" if "b < length ind" "length row = n" for i row b
    using fold_upd_hit [where F = "\<lambda>p _. A ! i ! fst p" and qs = ?en and xs = row
        and q = "(b, ind ! b)"] dist_en mem [OF that(1)] assms(2) that by simp
  have rows: "length (?M' ! r) = n" if "r < n" for r
  proof (cases "r \<in> set ind")
    case True
    then obtain a where a: "a < length ind" "ind ! a = r" by (auto simp: in_set_conv_nth)
    then show ?thesis using hit_row [OF a(1)] rowf_len rowlen [OF that] by simp
  next
    case False
    then show ?thesis using other_row rowlen [OF that] by simp
  qed
  have written: "?M' ! (ind ! a) ! (ind ! b) = A ! a ! b"
    if "a < length ind" "b < length ind" for a b
  proof -
    have "ind ! a < n" using assms(2) that(1) by simp
    then have "length (M ! (ind ! a)) = n" by (rule rowlen)
    then show ?thesis using hit_row [OF that(1)] hit_col [OF that(2)] by simp
  qed
  have untouched: "?M' ! r ! c = M ! r ! c" if "r \<notin> set ind \<or> c \<notin> set ind" for r c
  proof (cases "r \<in> set ind")
    case True
    then obtain a where a: "a < length ind" "ind ! a = r" by (auto simp: in_set_conv_nth)
    from True that have "c \<notin> set ind" by simp
    then show ?thesis using hit_row [OF a(1)] a(2) other_col by simp
  next
    case False
    then show ?thesis using other_row by simp
  qed
  show ?thesis
    using run len rows written untouched by blast
qed

section \<open>The fill convention of \<open>reassemble\<close> and \<open>reassemble_multi\<close>\<close>

lemma dim1_nth: "length M = n \<Longrightarrow> \<forall>r<n. length (M ! r) = n \<Longrightarrow> dim1 M = n"
  by (cases M) (auto simp: dim1_def)

lemma fill_diag_nat:
  assumes "length M = n" and "\<forall>r<n. length (M ! r) = n" and "\<forall>k\<in>set ks. k < n"
  shows "\<exists>M'. fill_diag (map int ks) M = Inr M' \<and> length M' = n
           \<and> (\<forall>r<n. length (M' ! r) = n)
           \<and> (\<forall>r<n. \<forall>c<n. M' ! r ! c = (if r = c \<and> r \<in> set ks then 1 else M ! r ! c))"
  using assms
proof (induction ks arbitrary: M)
  case Nil
  then show ?case by simp
next
  case (Cons k ks)
  let ?M = "M[k := (M ! k)[k := 1]]"
  have k: "k < n" using Cons.prems(3) by simp
  have d: "dim1 M = n" using Cons.prems(1,2) by (rule dim1_nth)
  have len: "length ?M = n" using Cons.prems(1) by simp
  have rows: "\<forall>r<n. length (?M ! r) = n"
    using Cons.prems(1,2) k by (auto simp: nth_list_update)
  have entries: "?M ! r ! c = (if r = k \<and> c = k then 1 else M ! r ! c)" if "r < n" "c < n" for r c
    using that Cons.prems(1,2) k by (auto simp: nth_list_update)
  obtain M' where M': "fill_diag (map int ks) ?M = Inr M'" "length M' = n"
      "\<forall>r<n. length (M' ! r) = n"
      "\<forall>r<n. \<forall>c<n. M' ! r ! c = (if r = c \<and> r \<in> set ks then 1 else ?M ! r ! c)"
    using Cons.IH [OF len rows] Cons.prems(3) by auto
  have "fill_diag (map int (k # ks)) M = Inr M'"
    using M'(1) k d Cons.prems(1) by (simp add: norm_index_def)
  moreover have "\<forall>r<n. \<forall>c<n. M' ! r ! c = (if r = c \<and> r \<in> set (k # ks) then 1 else M ! r ! c)"
    using M'(4) entries by auto
  ultimately show ?case using M'(2,3) by blast
qed

lemma length_iter_kept:
  assumes "distinct ks" and "\<forall>k\<in>set ks. k < n"
    and "distinct (iter (filter (\<lambda>i. i \<notin> set ks) [0..<n]))"
    and "set (iter (filter (\<lambda>i. i \<notin> set ks) [0..<n])) = set (filter (\<lambda>i. i \<notin> set ks) [0..<n])"
  shows "length (iter (filter (\<lambda>i. i \<notin> set ks) [0..<n])) = n - length ks"
proof -
  have "length (iter (filter (\<lambda>i. i \<notin> set ks) [0..<n]))
        = card (set (iter (filter (\<lambda>i. i \<notin> set ks) [0..<n])))"
    using assms(3) by (simp add: distinct_card)
  also have "\<dots> = length (filter (\<lambda>i. i \<notin> set ks) [0..<n])"
    unfolding assms(4) by (rule distinct_card) simp
  finally show ?thesis using length_kept [OF assms(1,2)] by simp
qed

lemma zeros_nth: "r < n \<Longrightarrow> c < n \<Longrightarrow> replicate n (replicate n z) ! r ! c = z"
  by simp

lemma eye_nth: "r < n \<Longrightarrow> c < n \<Longrightarrow> eye n ! r ! c = (if r = c then 1 else 0)"
  by (simp add: eye_def)

lemma eye_shape: "length (eye n) = n" "\<forall>row\<in>set (eye n). length row = n"
  by (auto simp: eye_def)

lemma reassemble_valid:
  assumes "length A + length ks = n" and "\<forall>row\<in>set A. length row = length A"
    and "distinct ks" and "\<forall>k\<in>set ks. k < n"
    and "distinct (iter (filter (\<lambda>i. i \<notin> set ks) [0..<n]))"
    and "set (iter (filter (\<lambda>i. i \<notin> set ks) [0..<n])) = set (filter (\<lambda>i. i \<notin> set ks) [0..<n])"
  shows "\<exists>R. reassemble iter A (map int ks) = Inr R \<and> length R = n
           \<and> (\<forall>r<n. length (R ! r) = n)
           \<and> (\<forall>a<length A. \<forall>b<length A.
                 R ! (iter (filter (\<lambda>i. i \<notin> set ks) [0..<n]) ! a)
                   ! (iter (filter (\<lambda>i. i \<notin> set ks) [0..<n]) ! b) = A ! a ! b)
           \<and> (\<forall>r<n. \<forall>c<n. r \<in> set ks \<or> c \<in> set ks \<longrightarrow> R ! r ! c = (if r = c then 1 else 0))"
proof -
  let ?ind = "iter (filter (\<lambda>i. i \<notin> set ks) [0..<n])"
  let ?Z = "replicate n (replicate n (0::'a))"
  have L: "length ?ind = length A"
    using length_iter_kept [where iter = iter, OF assms(3,4,5,6)] assms(1) by simp
  have indn: "\<forall>x\<in>set ?ind. x < n" unfolding assms(6) by simp
  have indks: "x \<in> set ?ind \<longleftrightarrow> x < n \<and> x \<notin> set ks" for x unfolding assms(6) by auto
  have dA: "dim1 A = length A" using assms(2) by (intro dim1_square) auto
  obtain M where M: "reassemble_outer A (enumerate 0 ?ind) (enumerate 0 ?ind) ?Z = Inr M"
      "length M = n" "\<forall>r<n. length (M ! r) = n"
      "\<forall>a<length ?ind. \<forall>b<length ?ind. M ! (?ind ! a) ! (?ind ! b) = A ! a ! b"
      "\<forall>r c. r \<notin> set ?ind \<or> c \<notin> set ?ind \<longrightarrow> M ! r ! c = ?Z ! r ! c"
    using reassemble_outer_enum [OF assms(5) indn, of A ?Z] L dA by auto
  obtain R where R: "fill_diag (map int ks) M = Inr R" "length R = n"
      "\<forall>r<n. length (R ! r) = n"
      "\<forall>r<n. \<forall>c<n. R ! r ! c = (if r = c \<and> r \<in> set ks then 1 else M ! r ! c)"
    using fill_diag_nat [OF M(2,3) assms(4)] by auto
  have run: "reassemble iter A (map int ks) = Inr R"
    using M(1) R(1) assms(1) by (simp add: reassemble_def arange_minus_nat Let_def)
  have kept: "R ! (?ind ! a) ! (?ind ! b) = A ! a ! b" if "a < length A" "b < length A" for a b
  proof -
    have "?ind ! a \<in> set ?ind" "?ind ! b \<in> set ?ind" using that L by auto
    then have "?ind ! a < n" "?ind ! b < n" "?ind ! a \<notin> set ks" using indks by auto
    then show ?thesis using R(4) M(4) that L by simp
  qed
  have fill: "R ! r ! c = (if r = c then 1 else 0)" if "r < n" "c < n" "r \<in> set ks \<or> c \<in> set ks" for r c
  proof -
    have "r \<notin> set ?ind \<or> c \<notin> set ?ind" using that(3) indks by auto
    then have "M ! r ! c = 0" using M(5) that(1,2) by simp
    then show ?thesis using R(4) that by auto
  qed
  show ?thesis using run R(2,3) kept fill by blast
qed

lemma mapE_Inr_D:
  "mapE f xs = Inr ys \<Longrightarrow> length ys = length xs \<and> (\<forall>i<length xs. f (xs ! i) = Inr (ys ! i))"
proof (induction xs arbitrary: ys)
  case Nil
  then show ?case by simp
next
  case (Cons x xs)
  then obtain y ys' where y: "f x = Inr y" "mapE f xs = Inr ys'" "ys = y # ys'"
    by (auto split: sum.splits)
  then show ?case using Cons.IH [OF y(2)] by (auto simp: nth_Cons split: nat.splits)
qed

lemma mapE_ex: "\<forall>x\<in>set xs. \<exists>y. f x = Inr y \<Longrightarrow> \<exists>ys. mapE f xs = Inr ys"
  by (induction xs) auto

lemma broadcast1_length: "length (broadcast1 L xs) = L"
  by (simp add: broadcast1_def)

lemma broadcast1_same: "length xs = L \<Longrightarrow> broadcast1 L xs = xs"
  by (auto simp: broadcast1_def intro: nth_equalityI)

lemma broadcast2_shape:
  "length (broadcast2 L m) = L" "\<forall>row\<in>set (broadcast2 L m). length row = L"
  by (auto simp: broadcast2_def broadcast1_length)

lemma broadcast2_same:
  "length m = L \<Longrightarrow> \<forall>row\<in>set m. length row = L \<Longrightarrow> broadcast2 L m = m"
  by (simp add: broadcast2_def broadcast1_same map_idI)

lemma reassemble_slice:
  assumes "distinct ks" and "\<forall>k\<in>set ks. k < n"
    and "distinct ind" and "set ind = set (filter (\<lambda>i. i \<notin> set ks) [0..<n])"
    and "reassemble_outer (broadcast2 (length ind) A) (enumerate 0 ind) (enumerate 0 ind) (eye n) = Inr R"
  shows "length R = n \<and> (\<forall>r<n. length (R ! r) = n)
         \<and> (\<forall>a<length ind. \<forall>b<length ind. R ! (ind ! a) ! (ind ! b) = broadcast2 (length ind) A ! a ! b)
         \<and> (\<forall>r<n. \<forall>c<n. r \<in> set ks \<or> c \<in> set ks \<longrightarrow> R ! r ! c = (if r = c then 1 else 0))"
proof -
  let ?B = "broadcast2 (length ind) A"
  have indn: "\<forall>x\<in>set ind. x < n" unfolding assms(4) by simp
  have indks: "x \<in> set ind \<longleftrightarrow> x < n \<and> x \<notin> set ks" for x unfolding assms(4) by auto
  have dB: "length ind \<le> dim1 ?B"
    using broadcast2_shape [of "length ind" A] by (cases ?B) (auto simp: dim1_def)
  obtain M where M: "reassemble_outer ?B (enumerate 0 ind) (enumerate 0 ind) (eye n) = Inr M"
      "length M = n" "\<forall>r<n. length (M ! r) = n"
      "\<forall>a<length ind. \<forall>b<length ind. M ! (ind ! a) ! (ind ! b) = ?B ! a ! b"
      "\<forall>r c. r \<notin> set ind \<or> c \<notin> set ind \<longrightarrow> M ! r ! c = eye n ! r ! c"
    using reassemble_outer_enum [OF assms(3) indn _ dB eye_shape] broadcast2_shape(1) [of "length ind" A]
    by auto
  have RM: "R = M" using M(1) assms(5) by simp
  have fill: "R ! r ! c = (if r = c then 1 else 0)" if "r < n" "c < n" "r \<in> set ks \<or> c \<in> set ks" for r c
  proof -
    have "r \<notin> set ind \<or> c \<notin> set ind" using that(3) indks by auto
    then show ?thesis using M(5) RM eye_nth [OF that(1,2)] by simp
  qed
  show ?thesis using M(2,3,4) fill unfolding RM by blast
qed

lemma reassemble_slice_ex:
  assumes "distinct ind" and "\<forall>x\<in>set ind. x < n"
  shows "\<exists>R. reassemble_outer (broadcast2 (length ind) A) (enumerate 0 ind) (enumerate 0 ind) (eye n) = Inr R"
proof -
  let ?B = "broadcast2 (length ind) A"
  have dB: "length ind \<le> dim1 ?B"
    using broadcast2_shape [of "length ind" A] by (cases ?B) (auto simp: dim1_def)
  show ?thesis
    using reassemble_outer_enum [OF assms _ dB eye_shape] broadcast2_shape(1) [of "length ind" A]
    by auto
qed

lemma reassemble_multi_unfold:
  assumes "length A0 + length ks = n"
  shows "reassemble_multi iter (A0 # rest) (map int ks) =
     (if length A0 = 0 \<or> dim1 A0 = 0 then Inl IndexError
      else if broadcastable (length A0) (length (iter (filter (\<lambda>i. i \<notin> set ks) [0..<n])))
            \<and> broadcastable (dim1 A0) (length (iter (filter (\<lambda>i. i \<notin> set ks) [0..<n])))
      then mapE (\<lambda>Aw. reassemble_outer (broadcast2 (length (iter (filter (\<lambda>i. i \<notin> set ks) [0..<n]))) Aw)
                  (enumerate 0 (iter (filter (\<lambda>i. i \<notin> set ks) [0..<n])))
                  (enumerate 0 (iter (filter (\<lambda>i. i \<notin> set ks) [0..<n]))) (eye n)) (A0 # rest)
      else Inl ValueError)"
  using assms by (simp add: reassemble_multi_def arange_minus_nat Let_def)

lemma reassemble_multi_fill:
  assumes batch: "\<forall>Aw\<in>set As. length Aw + length ks = n \<and> (\<forall>row\<in>set Aw. length row = length Aw)"
    and "distinct ks" and "\<forall>k\<in>set ks. k < n"
    and "distinct (iter (filter (\<lambda>i. i \<notin> set ks) [0..<n]))"
    and "set (iter (filter (\<lambda>i. i \<notin> set ks) [0..<n])) = set (filter (\<lambda>i. i \<notin> set ks) [0..<n])"
    and run: "reassemble_multi iter As (map int ks) = Inr Rs"
    and R: "R \<in> set Rs"
  shows "\<forall>r<n. \<forall>c<n. r \<in> set ks \<or> c \<in> set ks \<longrightarrow> R ! r ! c = (if r = c then 1 else 0)"
proof -
  let ?ind = "iter (filter (\<lambda>i. i \<notin> set ks) [0..<n])"
  let ?f = "\<lambda>Aw. reassemble_outer (broadcast2 (length ?ind) Aw) (enumerate 0 ?ind) (enumerate 0 ?ind) (eye n)"
  obtain A0 rest where As: "As = A0 # rest"
    using run by (cases As) (auto simp: reassemble_multi_def)
  have n: "length A0 + length ks = n" using batch As by simp
  have m: "mapE ?f As = Inr Rs"
    using run unfolding As reassemble_multi_unfold [OF n] by (auto split: if_splits)
  obtain w where w: "w < length Rs" "R = Rs ! w" using R by (auto simp: in_set_conv_nth)
  have "?f (As ! w) = Inr R" using mapE_Inr_D [OF m] w by simp
  from reassemble_slice [OF assms(2,3,4,5) this] show ?thesis by blast
qed

lemma reassemble_multi_returns:
  assumes batch: "\<forall>Aw\<in>set As. length Aw + length ks = n \<and> (\<forall>row\<in>set Aw. length row = length Aw)"
    and "distinct ks" and "\<forall>k\<in>set ks. k < n"
    and "distinct (iter (filter (\<lambda>i. i \<notin> set ks) [0..<n]))"
    and "set (iter (filter (\<lambda>i. i \<notin> set ks) [0..<n])) = set (filter (\<lambda>i. i \<notin> set ks) [0..<n])"
    and "As \<noteq> []" and "length ks < n"
  shows "\<exists>Rs. reassemble_multi iter As (map int ks) = Inr Rs \<and> length Rs = length As"
proof -
  let ?ind = "iter (filter (\<lambda>i. i \<notin> set ks) [0..<n])"
  let ?f = "\<lambda>Aw. reassemble_outer (broadcast2 (length ?ind) Aw) (enumerate 0 ?ind) (enumerate 0 ?ind) (eye n)"
  obtain A0 rest where As: "As = A0 # rest" using assms(6) by (cases As) auto
  have n: "length A0 + length ks = n" and sq: "\<forall>row\<in>set A0. length row = length A0"
    using batch As by auto
  have pos: "0 < length A0" using n assms(7) by (cases A0) auto
  have d: "dim1 A0 = length A0" using sq by (intro dim1_square) auto
  have L: "length ?ind = length A0"
    using length_iter_kept [where iter = iter, OF assms(2,3,4,5)] n by simp
  have indn: "\<forall>x\<in>set ?ind. x < n" unfolding assms(5) by simp
  have "\<forall>Aw\<in>set As. \<exists>R. ?f Aw = Inr R"
    using reassemble_slice_ex [OF assms(4) indn] by blast
  then obtain Rs where Rs: "mapE ?f As = Inr Rs" using mapE_ex [of As ?f] by blast
  have "reassemble_multi iter As (map int ks) = Inr Rs"
    using Rs pos d L unfolding As reassemble_multi_unfold [OF n] by (simp add: broadcastable_def)
  then show ?thesis using mapE_Inr_D [OF Rs] by simp
qed

text \<open>
  C3. Let \<open>ks\<close> be \<open>k\<close> distinct indices below \<open>n\<close>, \<open>A\<close> an \<open>(n-k) \<times> (n-k)\<close> matrix and
  \<open>As\<close> a batch of such matrices, and let the runtime iterate the set of kept indices
  in any order, each member once. Then \<open>reassemble\<close> returns a matrix that has \<open>1\<close> at
  every diagonal position whose index is in \<open>ks\<close> and \<open>0\<close> at every off-diagonal
  position with a row or column index in \<open>ks\<close>, whatever \<open>A\<close> holds; every slice that
  \<open>reassemble_multi\<close> returns has the same property; and \<open>reassemble_multi\<close> does
  return, one slice per matrix, when the batch is not empty and \<open>k < n\<close>.
\<close>

theorem reassemble_fill_convention:
  assumes "length A + length ks = n" and "\<forall>row\<in>set A. length row = length A"
    and "\<forall>Aw\<in>set As. length Aw + length ks = n \<and> (\<forall>row\<in>set Aw. length row = length Aw)"
    and "distinct ks" and "\<forall>k\<in>set ks. k < n"
    and "distinct (iter (filter (\<lambda>i. i \<notin> set ks) [0..<n]))"
    and "set (iter (filter (\<lambda>i. i \<notin> set ks) [0..<n])) = set (filter (\<lambda>i. i \<notin> set ks) [0..<n])"
  shows "(\<exists>R. reassemble iter A (map int ks) = Inr R \<and>
            (\<forall>r<n. \<forall>c<n. r \<in> set ks \<or> c \<in> set ks \<longrightarrow> R ! r ! c = (if r = c then 1 else 0)))
       \<and> (\<forall>Rs. reassemble_multi iter As (map int ks) = Inr Rs \<longrightarrow>
            (\<forall>R\<in>set Rs. \<forall>r<n. \<forall>c<n. r \<in> set ks \<or> c \<in> set ks \<longrightarrow>
                R ! r ! c = (if r = c then 1 else 0)))
       \<and> (As \<noteq> [] \<and> length ks < n \<longrightarrow>
            (\<exists>Rs. reassemble_multi iter As (map int ks) = Inr Rs \<and> length Rs = length As))"
proof -
  have single: "\<exists>R. reassemble iter A (map int ks) = Inr R \<and>
            (\<forall>r<n. \<forall>c<n. r \<in> set ks \<or> c \<in> set ks \<longrightarrow> R ! r ! c = (if r = c then 1 else 0))"
    using reassemble_valid [where iter = iter, OF assms(1,2,4,5,6,7)] by blast
  have multi: "\<forall>r<n. \<forall>c<n. r \<in> set ks \<or> c \<in> set ks \<longrightarrow> R ! r ! c = (if r = c then 1 else 0)"
    if "reassemble_multi iter As (map int ks) = Inr Rs" and "R \<in> set Rs" for Rs R
    using reassemble_multi_fill [where iter = iter, OF assms(3,4,5,6,7) that] .
  have returns: "\<exists>Rs. reassemble_multi iter As (map int ks) = Inr Rs \<and> length Rs = length As"
    if "As \<noteq> [] \<and> length ks < n"
    using reassemble_multi_returns [where iter = iter, OF assms(3,4,5,6,7)] that by blast
  show ?thesis
    using single multi returns by blast
qed

theorem reassemble_fill_convention_witness:
  "(\<exists>R. reassemble rev [[1, 3], [3, 6 :: real]] [1] = Inr R
        \<and> R ! 1 ! 1 = 1 \<and> R ! 0 ! 1 = 0 \<and> R ! 1 ! 2 = 0)
   \<and> (\<exists>Rs. reassemble_multi rev [[[1, 3], [3, 6 :: real]]] [1] = Inr Rs \<and> length Rs = 1)"
proof -
  have kept: "filter (\<lambda>i. i \<notin> set [1]) [0..<3] = [0, 2::nat]"
    by (simp add: upt_rec)
  have "(\<exists>R. reassemble rev [[1, 3], [3, 6 :: real]] (map int [1]) = Inr R \<and>
            (\<forall>r<3. \<forall>c<3. r \<in> set [1::nat] \<or> c \<in> set [1::nat] \<longrightarrow> R ! r ! c = (if r = c then 1 else 0)))
       \<and> (\<forall>Rs. reassemble_multi rev [[[1, 3], [3, 6 :: real]]] (map int [1]) = Inr Rs \<longrightarrow>
            (\<forall>R\<in>set Rs. \<forall>r<3. \<forall>c<3. r \<in> set [1::nat] \<or> c \<in> set [1::nat] \<longrightarrow>
                R ! r ! c = (if r = c then 1 else 0)))
       \<and> ([[[1, 3], [3, 6 :: real]]] \<noteq> [] \<and> length [1::nat] < 3 \<longrightarrow>
            (\<exists>Rs. reassemble_multi rev [[[1, 3], [3, 6 :: real]]] (map int [1]) = Inr Rs
                \<and> length Rs = length [[[1, 3], [3, 6 :: real]]]))"
    by (rule reassemble_fill_convention) (simp_all add: kept)
  then obtain R Rs where R: "reassemble rev [[1, 3], [3, 6 :: real]] [1] = Inr R"
      and fill: "\<forall>r<3. \<forall>c<3. r \<in> set [1::nat] \<or> c \<in> set [1::nat] \<longrightarrow> R ! r ! c = (if r = c then 1 else 0)"
      and Rs: "reassemble_multi rev [[[1, 3], [3, 6 :: real]]] [1] = Inr Rs" "length Rs = 1"
    by auto
  have "R ! 1 ! 1 = 1" using fill [rule_format, of 1 1] by simp
  moreover have "R ! 0 ! 1 = 0" using fill [rule_format, of 0 1] by simp
  moreover have "R ! 1 ! 2 = 0" using fill [rule_format, of 1 2] by simp
  ultimately show ?thesis using R Rs by simp
qed

section \<open>The blocks of \<open>chop_in_blocks_multi\<close>\<close>

lemma dims_batch:
  assumes "m \<noteq> []" and "\<forall>M\<in>set m. length M = n \<and> (\<forall>row\<in>set M. length row = n)"
  shows "dim1 m = n" and "dim2 m = n"
proof -
  obtain M0 rest where m: "m = M0 # rest" using assms(1) by (cases m) auto
  then have "length M0 = n" "\<forall>row\<in>set M0. length row = n" using assms(2) by auto
  then show "dim1 m = n" "dim2 m = n"
    using m dim1_square [of M0 n] by (auto simp: dim1_def dim2_def)
qed

lemma delete_take_rows:
  assumes "length M = n"
  shows "delete_from n ks (map (take_from ks') M)
         = map (\<lambda>i. map (\<lambda>j. M ! i ! j) ks') (filter (\<lambda>i. i \<notin> set ks) [0..<n])"
  unfolding delete_from_def take_from_def using assms by (auto intro!: map_cong)

lemma chop_in_blocks_multi_valid:
  assumes "m \<noteq> []" and "\<forall>M\<in>set m. length M = n \<and> (\<forall>row\<in>set M. length row = n)"
    and "\<forall>k\<in>set ks. k < n"
  shows "chop_in_blocks_multi m (map int ks) =
           Inr (map (\<lambda>M. map (\<lambda>i. map (\<lambda>j. M ! i ! j) (filter (\<lambda>j. j \<notin> set ks) [0..<n]))
                          (filter (\<lambda>i. i \<notin> set ks) [0..<n])) m,
                map (\<lambda>M. map (\<lambda>i. map (\<lambda>j. M ! i ! j) ks) (filter (\<lambda>i. i \<notin> set ks) [0..<n])) m,
                map (\<lambda>M. map (\<lambda>i. map (\<lambda>j. M ! i ! j) ks) ks) m)"
proof -
  have A: "map (delete_from n ks) (delete_from n ks M)
           = map (\<lambda>i. map (\<lambda>j. M ! i ! j) (filter (\<lambda>j. j \<notin> set ks) [0..<n]))
               (filter (\<lambda>i. i \<notin> set ks) [0..<n])" for M :: "'a list list"
    by (simp add: delete_from_def comp_def)
  have B: "delete_from n ks (map (take_from ks) M)
           = map (\<lambda>i. map (\<lambda>j. M ! i ! j) ks) (filter (\<lambda>i. i \<notin> set ks) [0..<n])"
    if "M \<in> set m" for M
    using assms(2) that by (simp add: delete_take_rows)
  have C: "map (take_from ks) (take_from ks M) = map (\<lambda>i. map (\<lambda>j. M ! i ! j) ks) ks"
    for M :: "'a list list"
    by (simp add: take_from_def comp_def)
  show ?thesis
    unfolding chop_in_blocks_multi_def dims_batch [OF assms(1,2)]
    by (simp add: np_delete1_def np_delete2_def np_take1_def np_take2_def
        norm_indices_nat [OF assms(3)] A B C)
qed

text \<open>
  C5 states that the \<open>B\<close> block of \<open>chop_in_blocks_multi\<close> retains all rows. The code
  deletes the rows at \<^verbatim>\<open>idtodelete\<close> from it (\<^verbatim>\<open>np.delete(..., axis=1)\<close>): for the batch
  holding the one matrix \<open>[[1,2],[3,4]]\<close> and \<open>idtodelete = [1]\<close> the \<open>B\<close> block is
  \<open>[[[2]]]\<close>, one row, and not the two rows \<open>[[[2],[4]]]\<close> of the column slice.
\<close>

theorem chop_in_blocks_multi_B_counterexample:
  "chop_in_blocks_multi [[[1, 2], [3, 4 :: real]]] [1] = Inr ([[[1]]], [[[2]]], [[[4]]])
   \<and> [[[2 :: real]]] \<noteq> [[[2], [4]]]"
  by (simp add: chop_in_blocks_multi_def np_delete1_def np_delete2_def np_take1_def np_take2_def
      norm_index_def delete_from_def take_from_def dim1_def dim2_def upt_rec)

text \<open>
  C5, as the code has it. For a non-empty batch \<open>m\<close> of \<open>n \<times> n\<close> matrices and \<open>k\<close>
  distinct indices \<open>ks\<close> below \<open>n\<close>, the \<open>B\<close> block of \<open>chop_in_blocks_multi\<close> has one
  slice per matrix; slice \<open>w\<close> holds the entries \<open>m[w, i, j]\<close> for \<open>i\<close> a kept index
  (ascending) and \<open>j\<close> running through \<open>ks\<close>, so it has \<open>n - k\<close> rows, the rows at \<open>ks\<close>
  being removed, and it is the \<open>B\<close> block that \<open>chop_in_blocks\<close> returns for that matrix.
\<close>

theorem chop_in_blocks_multi_B:
  assumes "m \<noteq> []" and "\<forall>M\<in>set m. length M = n \<and> (\<forall>row\<in>set M. length row = n)"
    and "distinct ks" and "\<forall>k\<in>set ks. k < n"
  shows "\<exists>A B C. chop_in_blocks_multi m (map int ks) = Inr (A, B, C)
           \<and> length B = length m
           \<and> (\<forall>w<length m.
                 B ! w = map (\<lambda>i. map (\<lambda>j. m ! w ! i ! j) ks) (filter (\<lambda>i. i \<notin> set ks) [0..<n])
               \<and> length (B ! w) = n - length ks
               \<and> (\<exists>A' C'. chop_in_blocks (m ! w) (map int ks) = Inr (A', B ! w, C')))"
proof -
  have single: "\<exists>A' C'. chop_in_blocks (m ! w) (map int ks)
      = Inr (A', map (\<lambda>i. map (\<lambda>j. m ! w ! i ! j) ks) (filter (\<lambda>i. i \<notin> set ks) [0..<n]), C')"
    if "w < length m" for w
  proof -
    have "length (m ! w) = n" "\<forall>row\<in>set (m ! w). length row = n"
      using assms(2) that by auto
    from chop_in_blocks_valid [OF this assms(4)] show ?thesis by blast
  qed
  show ?thesis
    unfolding chop_in_blocks_multi_valid [OF assms(1,2,4)]
    using single length_kept [OF assms(3,4)] by simp
qed

theorem chop_in_blocks_multi_B_witness:
  "\<exists>A C. chop_in_blocks_multi [[[1, 2, 3], [2, 4, 5], [3, 5, 6 :: real]]] [2, 0] = Inr (A, [[[5, 2]]], C)
       \<and> (\<exists>A' C'. chop_in_blocks [[1, 2, 3], [2, 4, 5], [3, 5, 6 :: real]] [2, 0] = Inr (A', [[5, 2]], C'))"
proof -
  obtain A B C where r: "chop_in_blocks_multi [[[1, 2, 3], [2, 4, 5], [3, 5, 6 :: real]]] (map int [2, 0]) = Inr (A, B, C)"
    and B: "\<forall>w<length [[[1, 2, 3], [2, 4, 5], [3, 5, 6 :: real]]].
                 B ! w = map (\<lambda>i. map (\<lambda>j. [[[1, 2, 3], [2, 4, 5], [3, 5, 6 :: real]]] ! w ! i ! j) [2, 0]) (filter (\<lambda>i. i \<notin> set [2, 0]) [0..<3])
               \<and> length (B ! w) = 3 - length [2::nat, 0]
               \<and> (\<exists>A' C'. chop_in_blocks ([[[1, 2, 3], [2, 4, 5], [3, 5, 6 :: real]]] ! w) (map int [2, 0]) = Inr (A', B ! w, C'))"
    and len: "length B = length [[[1, 2, 3], [2, 4, 5], [3, 5, 6 :: real]]]"
    using chop_in_blocks_multi_B [of "[[[1, 2, 3], [2, 4, 5], [3, 5, 6 :: real]]]" 3 "[2, 0]"]
    by auto
  have B0: "B ! 0 = [[5, 2]]" using B [rule_format, of 0] by (simp add: upt_rec)
  then have "B = [[[5, 2]]]" using len by (cases B) auto
  then show ?thesis using r B [rule_format, of 0] by auto
qed

section \<open>Index errors of the partition operations\<close>

















section \<open>Deleting every index\<close>

lemma mat_eqI:
  assumes "length R = n" and "length R' = n"
    and "\<forall>r<n. length (R ! r) = n" and "\<forall>r<n. length (R' ! r) = n"
    and "\<forall>r<n. \<forall>c<n. R ! r ! c = R' ! r ! c"
  shows "R = R'"
proof (rule nth_equalityI)
  show "length R = length R'" using assms(1,2) by simp
next
  fix r assume "r < length R"
  then have r: "r < n" using assms(1) by simp
  show "R ! r = R' ! r"
    using assms(3,4,5) r by (intro nth_equalityI) auto
qed



lemma square_rows: "length m = n \<Longrightarrow> \<forall>row\<in>set m. length row = n \<Longrightarrow> \<forall>r<n. length (m ! r) = n"
  by simp






section \<open>The vector operations\<close>




lemma chop_in_blocks_vector_valid:
  assumes "\<forall>k\<in>set ks. k < length v"
    and "\<forall>x\<in>set (iter (filter (\<lambda>i. i \<notin> set ks) [0..<length v])). x < length v"
  shows "chop_in_blocks_vector iter v (map int ks)
         = Inr (map (\<lambda>i. v ! i) (iter (filter (\<lambda>i. i \<notin> set ks) [0..<length v])),
                map (\<lambda>k. v ! k) ks)"
proof -
  have a: "norm_indices (length v) (map int (iter (filter (\<lambda>i. i \<notin> set ks) [0..<length v])))
           = Inr (iter (filter (\<lambda>i. i \<notin> set ks) [0..<length v]))"
    using assms(2) by (rule norm_indices_nat)
  have b: "norm_indices (length v) (map int ks) = Inr ks"
    using assms(1) by (rule norm_indices_nat)
  show ?thesis
    unfolding chop_in_blocks_vector_def arange_minus_nat np_take0_def Let_def a b
    by (simp add: take_from_def)
qed

section \<open>Partition followed by reassembly\<close>



lemma kept_nth_props:
  assumes "a < length (filter (\<lambda>i. i \<notin> set ks) [0..<n])"
  shows "filter (\<lambda>i. i \<notin> set ks) [0..<n] ! a < n" and "filter (\<lambda>i. i \<notin> set ks) [0..<n] ! a \<notin> set ks"
proof -
  have "filter (\<lambda>i. i \<notin> set ks) [0..<n] ! a \<in> set (filter (\<lambda>i. i \<notin> set ks) [0..<n])"
    using assms by (rule nth_mem)
  then show "filter (\<lambda>i. i \<notin> set ks) [0..<n] ! a < n"
    and "filter (\<lambda>i. i \<notin> set ks) [0..<n] ! a \<notin> set ks" by simp_all
qed






section \<open>The vector partition and the iteration order of the kept-index set\<close>

text \<open>
  When the runtime iterates the kept-index set in ascending order, \<open>va\<close> holds the kept
  entries in ascending index order and \<open>vb\<close> the entries at \<^verbatim>\<open>idtodelete\<close> in the given
  order, for one vector and for every vector of a batch.
\<close>

lemma chop_in_blocks_vector_multi_valid:
  assumes "vs \<noteq> []" and "\<forall>v\<in>set vs. length v = n" and "\<forall>k\<in>set ks. k < n"
    and "\<forall>x\<in>set (iter (filter (\<lambda>i. i \<notin> set ks) [0..<n])). x < n"
  shows "chop_in_blocks_vector_multi iter vs (map int ks)
         = Inr (map (\<lambda>v. map (\<lambda>i. v ! i) (iter (filter (\<lambda>i. i \<notin> set ks) [0..<n]))) vs,
                map (\<lambda>v. map (\<lambda>k. v ! k) ks) vs)"
proof -
  obtain v0 rest where vs: "vs = v0 # rest" using assms(1) by (cases vs) auto
  then have n: "length v0 = n" using assms(2) by simp
  have a: "norm_indices n (map int (iter (filter (\<lambda>i. i \<notin> set ks) [0..<n])))
           = Inr (iter (filter (\<lambda>i. i \<notin> set ks) [0..<n]))"
    using assms(4) by (rule norm_indices_nat)
  have b: "norm_indices n (map int ks) = Inr ks"
    using assms(3) by (rule norm_indices_nat)
  show ?thesis
    unfolding chop_in_blocks_vector_multi_def vs list.case n arange_minus_nat np_take1_def Let_def a b
    by (simp add: take_from_def)
qed

lemma chop_in_blocks_vector_ascending:
  assumes "length v = n" and "\<forall>k\<in>set ks. k < n"
    and "iter (filter (\<lambda>i. i \<notin> set ks) [0..<n]) = filter (\<lambda>i. i \<notin> set ks) [0..<n]"
  shows "chop_in_blocks_vector iter v (map int ks)
         = Inr (map (\<lambda>i. v ! i) (filter (\<lambda>i. i \<notin> set ks) [0..<n]), map (\<lambda>k. v ! k) ks)"
proof -
  have "\<forall>k\<in>set ks. k < length v" using assms(1,2) by simp
  moreover have "\<forall>x\<in>set (iter (filter (\<lambda>i. i \<notin> set ks) [0..<length v])). x < length v"
    unfolding assms(1,3) by simp
  ultimately have "chop_in_blocks_vector iter v (map int ks)
         = Inr (map (\<lambda>i. v ! i) (iter (filter (\<lambda>i. i \<notin> set ks) [0..<length v])), map (\<lambda>k. v ! k) ks)"
    by (rule chop_in_blocks_vector_valid)
  then show ?thesis unfolding assms(1,3) .
qed

lemma chop_in_blocks_vector_multi_ascending:
  assumes "vs \<noteq> []" and "\<forall>v\<in>set vs. length v = n" and "\<forall>k\<in>set ks. k < n"
    and "iter (filter (\<lambda>i. i \<notin> set ks) [0..<n]) = filter (\<lambda>i. i \<notin> set ks) [0..<n]"
  shows "chop_in_blocks_vector_multi iter vs (map int ks)
         = Inr (map (\<lambda>v. map (\<lambda>i. v ! i) (filter (\<lambda>i. i \<notin> set ks) [0..<n])) vs,
                map (\<lambda>v. map (\<lambda>k. v ! k) ks) vs)"
proof -
  have "\<forall>x\<in>set (iter (filter (\<lambda>i. i \<notin> set ks) [0..<n])). x < n"
    unfolding assms(4) by simp
  from chop_in_blocks_vector_multi_valid [where iter = iter, OF assms(1,2,3) this] show ?thesis
    unfolding assms(4) .
qed

lemma chop_in_blocks_vector_example:
  "chop_in_blocks_vector (\<lambda>ks. ks) [10, 20, 30, 40 :: real] [0, 2] = Inr ([20, 40], [10, 30])"
  by code_simp

text \<open>
  C6 states that \<open>va\<close> holds the entries at the kept indices in ascending order for every
  vector and every valid \<^verbatim>\<open>idtodelete\<close>. The code takes the order from the iteration of
  a Python set. For a vector of length \<open>9\<close> and \<open>idtodelete = [0,2,3,4,5,6,7]\<close> CPython
  iterates the kept indices \<open>{1, 8}\<close> as \<open>8, 1\<close>, and \<open>va\<close> is \<open>[v[8], v[1]]\<close>, not
  \<open>[v[1], v[8]]\<close>.
\<close>

theorem chop_in_blocks_vector_set_order:
  "chop_in_blocks_vector cpython_order_9 [0, 10, 20, 30, 40, 50, 60, 70, 80 :: real]
       [0, 2, 3, 4, 5, 6, 7]
     = Inr ([80, 10], [0, 20, 30, 40, 50, 60, 70])"
  by code_simp

section \<open>Batched against single operations\<close>

text \<open>
  Away from the degenerate shapes, every batched operation returns, slice by slice, what
  the single-object operation returns for that slice, under the same iteration order.
\<close>

lemma chop_in_blocks_multi_slices:
  assumes "m \<noteq> []" and "\<forall>M\<in>set m. length M = n \<and> (\<forall>row\<in>set M. length row = n)"
    and "\<forall>k\<in>set ks. k < n"
  shows "\<exists>A B C. chop_in_blocks_multi m (map int ks) = Inr (A, B, C)
           \<and> length A = length m \<and> length B = length m \<and> length C = length m
           \<and> (\<forall>w<length m. chop_in_blocks (m ! w) (map int ks) = Inr (A ! w, B ! w, C ! w))"
proof -
  have "chop_in_blocks (m ! w) (map int ks)
      = Inr (map (\<lambda>i. map (\<lambda>j. m ! w ! i ! j) (filter (\<lambda>j. j \<notin> set ks) [0..<n]))
               (filter (\<lambda>i. i \<notin> set ks) [0..<n]),
             map (\<lambda>i. map (\<lambda>j. m ! w ! i ! j) ks) (filter (\<lambda>i. i \<notin> set ks) [0..<n]),
             map (\<lambda>i. map (\<lambda>j. m ! w ! i ! j) ks) ks)"
    if "w < length m" for w
  proof -
    have "length (m ! w) = n" "\<forall>row\<in>set (m ! w). length row = n"
      using assms(2) that by auto
    then show ?thesis using assms(3) by (rule chop_in_blocks_valid)
  qed
  then show ?thesis
    unfolding chop_in_blocks_multi_valid [OF assms] by simp
qed

lemma chop_in_blocks_vector_multi_slices:
  assumes "vs \<noteq> []" and "\<forall>v\<in>set vs. length v = n" and "\<forall>k\<in>set ks. k < n"
    and "\<forall>x\<in>set (iter (filter (\<lambda>i. i \<notin> set ks) [0..<n])). x < n"
  shows "\<exists>va vb. chop_in_blocks_vector_multi iter vs (map int ks) = Inr (va, vb)
           \<and> length va = length vs \<and> length vb = length vs
           \<and> (\<forall>w<length vs. chop_in_blocks_vector iter (vs ! w) (map int ks) = Inr (va ! w, vb ! w))"
proof -
  have "chop_in_blocks_vector iter (vs ! w) (map int ks)
      = Inr (map (\<lambda>i. vs ! w ! i) (iter (filter (\<lambda>i. i \<notin> set ks) [0..<n])),
             map (\<lambda>k. vs ! w ! k) ks)"
    if "w < length vs" for w
  proof -
    have n: "length (vs ! w) = n" using assms(2) that by simp
    have a: "\<forall>k\<in>set ks. k < length (vs ! w)" unfolding n by (rule assms(3))
    have b: "\<forall>x\<in>set (iter (filter (\<lambda>i. i \<notin> set ks) [0..<length (vs ! w)])). x < length (vs ! w)"
      unfolding n by (rule assms(4))
    from chop_in_blocks_vector_valid [where iter = iter, OF a b] show ?thesis unfolding n .
  qed
  then show ?thesis
    unfolding chop_in_blocks_vector_multi_valid [where iter = iter, OF assms] by simp
qed

lemma reassemble_multi_slices:
  assumes batch: "\<forall>Aw\<in>set As. length Aw + length ks = n \<and> (\<forall>row\<in>set Aw. length row = length Aw)"
    and "distinct ks" and "\<forall>k\<in>set ks. k < n"
    and "distinct (iter (filter (\<lambda>i. i \<notin> set ks) [0..<n]))"
    and "set (iter (filter (\<lambda>i. i \<notin> set ks) [0..<n])) = set (filter (\<lambda>i. i \<notin> set ks) [0..<n])"
    and "As \<noteq> []" and "length ks < n"
  shows "\<exists>Rs. reassemble_multi iter As (map int ks) = Inr Rs \<and> length Rs = length As
           \<and> (\<forall>w<length As. reassemble iter (As ! w) (map int ks) = Inr (Rs ! w))"
proof -
  let ?ind = "iter (filter (\<lambda>i. i \<notin> set ks) [0..<n])"
  let ?f = "\<lambda>Aw. reassemble_outer (broadcast2 (length ?ind) Aw) (enumerate 0 ?ind) (enumerate 0 ?ind) (eye n)"
  obtain Rs where Rs: "reassemble_multi iter As (map int ks) = Inr Rs" "length Rs = length As"
    using reassemble_multi_returns [where iter = iter, OF assms] by blast
  obtain A0 rest where As: "As = A0 # rest" using assms(6) by (cases As) auto
  have n: "length A0 + length ks = n" using batch As by simp
  have m: "mapE ?f As = Inr Rs"
    using Rs(1) unfolding As reassemble_multi_unfold [OF n] by (auto split: if_splits)
  have indks: "x \<in> set ?ind \<longleftrightarrow> x < n \<and> x \<notin> set ks" for x unfolding assms(5) by auto
  have slice: "reassemble iter (As ! w) (map int ks) = Inr (Rs ! w)" if w: "w < length As" for w
  proof -
    let ?A = "As ! w"
    have Aw: "length ?A + length ks = n" "\<forall>row\<in>set ?A. length row = length ?A"
      using batch w by auto
    have L: "length ?ind = length ?A"
      using length_iter_kept [where iter = iter, OF assms(2,3,4,5)] Aw(1) by simp
    have same: "broadcast2 (length ?ind) ?A = ?A"
      using Aw(2) L by (intro broadcast2_same) auto
    have run: "?f ?A = Inr (Rs ! w)" using mapE_Inr_D [OF m] w by simp
    have S: "length (Rs ! w) = n" "\<forall>r<n. length (Rs ! w ! r) = n"
        "\<forall>a<length ?ind. \<forall>b<length ?ind. Rs ! w ! (?ind ! a) ! (?ind ! b) = ?A ! a ! b"
        "\<forall>r<n. \<forall>c<n. r \<in> set ks \<or> c \<in> set ks \<longrightarrow> Rs ! w ! r ! c = (if r = c then 1 else 0)"
      using reassemble_slice [OF assms(2,3,4,5) run] unfolding same by blast+
    obtain R where R: "reassemble iter ?A (map int ks) = Inr R" "length R = n"
        "\<forall>r<n. length (R ! r) = n"
        "\<forall>a<length ?A. \<forall>b<length ?A. R ! (?ind ! a) ! (?ind ! b) = ?A ! a ! b"
        "\<forall>r<n. \<forall>c<n. r \<in> set ks \<or> c \<in> set ks \<longrightarrow> R ! r ! c = (if r = c then 1 else 0)"
      using reassemble_valid [where iter = iter, OF Aw assms(2,3,4,5)] by blast
    have entry: "R ! r ! c = Rs ! w ! r ! c" if rn: "r < n" and cn: "c < n" for r c
    proof (cases "r \<in> set ks \<or> c \<in> set ks")
      case True
      have "R ! r ! c = (if r = c then 1 else 0)" using R(5) rn cn True by blast
      moreover have "Rs ! w ! r ! c = (if r = c then 1 else 0)" using S(4) rn cn True by blast
      ultimately show ?thesis by simp
    next
      case False
      then have "r \<in> set ?ind" "c \<in> set ?ind" using indks rn cn by auto
      then obtain a b where a: "a < length ?ind" "?ind ! a = r" and b: "b < length ?ind" "?ind ! b = c"
        by (auto simp: in_set_conv_nth)
      have "R ! (?ind ! a) ! (?ind ! b) = ?A ! a ! b" using R(4) a(1) b(1) L by simp
      moreover have "Rs ! w ! (?ind ! a) ! (?ind ! b) = ?A ! a ! b" using S(3) a(1) b(1) by simp
      ultimately show ?thesis using a(2) b(2) by simp
    qed
    have "R = Rs ! w"
      using R(2,3) S(1,2) entry by (intro mat_eqI [of R n "Rs ! w"]) auto
    then show ?thesis using R(1) by simp
  qed
  show ?thesis using Rs slice by blast
qed

lemma mapE_cong: "\<forall>x\<in>set xs. f x = g x \<Longrightarrow> mapE f xs = mapE g xs"
proof (induction xs)
  case Nil
  show ?case by simp
next
  case (Cons x xs)
  then have "f x = g x" and "mapE f xs = mapE g xs" by simp_all
  then show ?case by (simp only: mapE.simps)
qed

lemma reassemble_vector_multi_slices:
  assumes batch: "\<forall>va\<in>set vas. length va + length ks = n"
    and "distinct ks" and "\<forall>k\<in>set ks. k < n"
    and "distinct (iter (filter (\<lambda>i. i \<notin> set ks) [0..<n]))"
    and "set (iter (filter (\<lambda>i. i \<notin> set ks) [0..<n])) = set (filter (\<lambda>i. i \<notin> set ks) [0..<n])"
    and "vas \<noteq> []" and "length ks < n"
  shows "reassemble_vector_multi iter vas (map int ks)
         = mapE (\<lambda>va. reassemble_vector iter va (map int ks)) vas"
proof -
  let ?ind = "iter (filter (\<lambda>i. i \<notin> set ks) [0..<n])"
  obtain va0 rest where vas: "vas = va0 # rest" using assms(6) by (cases vas) auto
  have n0: "length va0 + length ks = n" using batch vas by simp
  have pos: "length va0 \<noteq> 0" using n0 assms(7) by (cases va0) auto
  have L: "length ?ind = n - length ks"
    using length_iter_kept [where iter = iter, OF assms(2,3,4,5)] .
  have bc: "broadcastable (length va0) (length ?ind)"
    using L n0 by (auto simp: broadcastable_def)
  have each: "reassemble_vector_loop (broadcast1 (length ?ind) va) (enumerate 0 ?ind) (replicate n 0)
              = reassemble_vector iter va (map int ks)" if "va \<in> set vas" for va :: "'a list"
  proof -
    have len: "length va + length ks = n" using batch that by simp
    then have "broadcast1 (length ?ind) va = va" using L by (intro broadcast1_same) simp
    then show ?thesis using len by (simp add: reassemble_vector_def arange_minus_nat Let_def)
  qed
  have "reassemble_vector_multi iter vas (map int ks)
        = mapE (\<lambda>vw. reassemble_vector_loop (broadcast1 (length ?ind) vw)
                        (enumerate 0 ?ind) (replicate n 0)) vas"
    using pos bc n0 unfolding vas by (simp add: reassemble_vector_multi_def arange_minus_nat Let_def)
  also have "\<dots> = mapE (\<lambda>va. reassemble_vector iter va (map int ks)) vas"
    using each by (intro mapE_cong) blast
  finally show ?thesis .
qed

text \<open>
  C2 states that every batched operation equals the single-object operation on each
  slice, also for a batch of size one. When \<^verbatim>\<open>idtodelete\<close> covers every index the
  reduced objects are empty: \<open>reassemble\<close> returns the identity matrix and
  \<open>reassemble_vector\<close> the zero vector, but \<open>reassemble_multi\<close> and
  \<open>reassemble_vector_multi\<close>, given the batch holding that one empty object, raise
  \<^verbatim>\<open>IndexError\<close> while reading \<^verbatim>\<open>A[:,0,0]\<close> and \<^verbatim>\<open>va[:,0]\<close>.
\<close>

theorem batched_reassemble_empty_slices:
  "reassemble (\<lambda>ks. ks) [] [0] = Inr [[1 :: real]]
   \<and> reassemble_multi (\<lambda>ks. ks) [[]] [0] = (Inl IndexError :: error + real list list list)
   \<and> reassemble_vector (\<lambda>ks. ks) [] [0] = Inr [0 :: real]
   \<and> reassemble_vector_multi (\<lambda>ks. ks) [[]] [0] = (Inl IndexError :: error + real list list)"
  by code_simp

section \<open>Reassembly followed by partition\<close>

text \<open>
  When the runtime iterates the kept-index set in ascending order, partitioning the
  reassembled matrix gives back \<open>A\<close>, an all-zero cross block and the identity block.
\<close>

lemma reassemble_chop_ascending:
  assumes "length A + length ks = n" and "\<forall>row\<in>set A. length row = length A"
    and "distinct ks" and "\<forall>k\<in>set ks. k < n"
    and asc: "iter (filter (\<lambda>i. i \<notin> set ks) [0..<n]) = filter (\<lambda>i. i \<notin> set ks) [0..<n]"
  shows "\<exists>R. reassemble iter A (map int ks) = Inr R
           \<and> chop_in_blocks R (map int ks)
               = Inr (A, replicate (length A) (replicate (length ks) 0), eye (length ks))"
proof -
  let ?kept = "filter (\<lambda>i. i \<notin> set ks) [0..<n]"
  have d: "distinct (iter ?kept)" unfolding asc by simp
  have s: "set (iter ?kept) = set ?kept" unfolding asc by simp
  obtain R where R: "reassemble iter A (map int ks) = Inr R" "length R = n"
      "\<forall>r<n. length (R ! r) = n"
      "\<forall>a<length A. \<forall>b<length A. R ! (iter ?kept ! a) ! (iter ?kept ! b) = A ! a ! b"
      "\<forall>r<n. \<forall>c<n. r \<in> set ks \<or> c \<in> set ks \<longrightarrow> R ! r ! c = (if r = c then 1 else 0)"
    using reassemble_valid [where iter = iter, OF assms(1,2,3,4) d s] by blast
  have lk: "length ?kept = length A"
    using length_kept [OF assms(3,4)] assms(1) by simp
  have rows: "\<forall>row\<in>set R. length row = n"
    using R(2,3) by (auto simp: in_set_conv_nth)
  have chop: "chop_in_blocks R (map int ks) =
           Inr (map (\<lambda>i. map (\<lambda>j. R ! i ! j) ?kept) ?kept,
                map (\<lambda>i. map (\<lambda>j. R ! i ! j) ks) ?kept,
                map (\<lambda>i. map (\<lambda>j. R ! i ! j) ks) ks)"
    using R(2) rows assms(4) by (rule chop_in_blocks_valid)
  have blockA: "map (\<lambda>i. map (\<lambda>j. R ! i ! j) ?kept) ?kept = A"
  proof (rule nth_equalityI)
    show "length (map (\<lambda>i. map (\<lambda>j. R ! i ! j) ?kept) ?kept) = length A" using lk by simp
  next
    fix a assume "a < length (map (\<lambda>i. map (\<lambda>j. R ! i ! j) ?kept) ?kept)"
    then have a: "a < length A" using lk by simp
    have la: "length (A ! a) = length A" using assms(2) a by simp
    have "map (\<lambda>j. R ! (?kept ! a) ! j) ?kept = A ! a"
      using R(4) a la lk unfolding asc by (intro nth_equalityI) auto
    then show "map (\<lambda>i. map (\<lambda>j. R ! i ! j) ?kept) ?kept ! a = A ! a"
      using a lk by simp
  qed
  have zero: "R ! i ! j = 0" if "i \<in> set ?kept" "j \<in> set ks" for i j
  proof -
    have "i < n" "j < n" "i \<noteq> j" using that assms(4) by auto
    then show ?thesis using R(5) that(2) by simp
  qed
  have blockB: "map (\<lambda>i. map (\<lambda>j. R ! i ! j) ks) ?kept = replicate (length A) (replicate (length ks) 0)"
  proof -
    have "map (\<lambda>j. R ! i ! j) ks = replicate (length ks) 0" if "i \<in> set ?kept" for i
      using zero [OF that] by (simp add: map_replicate_const [symmetric] cong: map_cong)
    then have "map (\<lambda>i. map (\<lambda>j. R ! i ! j) ks) ?kept = map (\<lambda>i. replicate (length ks) 0) ?kept"
      by (intro map_cong) auto
    then show ?thesis using lk by (simp add: map_replicate_const)
  qed
  have blockC: "map (\<lambda>i. map (\<lambda>j. R ! i ! j) ks) ks = eye (length ks)"
  proof (rule mat_eqI [where n = "length ks"])
    show "length (map (\<lambda>i. map (\<lambda>j. R ! i ! j) ks) ks) = length ks" by simp
    show "length (eye (length ks) :: 'a list list) = length ks" by (simp add: eye_def)
    show "\<forall>r<length ks. length (map (\<lambda>i. map (\<lambda>j. R ! i ! j) ks) ks ! r) = length ks" by simp
    show "\<forall>r<length ks. length ((eye (length ks) :: 'a list list) ! r) = length ks"
      by (simp add: eye_def)
    show "\<forall>r<length ks. \<forall>c<length ks.
            map (\<lambda>i. map (\<lambda>j. R ! i ! j) ks) ks ! r ! c = eye (length ks) ! r ! c"
    proof (intro allI impI)
      fix r c assume r: "r < length ks" and c: "c < length ks"
      have "ks ! r < n" "ks ! c < n" "ks ! r \<in> set ks" using assms(4) r c by auto
      then have "R ! (ks ! r) ! (ks ! c) = (if ks ! r = ks ! c then 1 else 0)"
        using R(5) by simp
      also have "\<dots> = (if r = c then 1 else 0)"
        using assms(3) r c by (simp add: nth_eq_iff_index_eq)
      finally show "map (\<lambda>i. map (\<lambda>j. R ! i ! j) ks) ks ! r ! c = eye (length ks) ! r ! c"
        using r c by (simp add: eye_nth)
    qed
  qed
  show ?thesis using R(1) chop blockA blockB blockC by simp
qed

text \<open>
  C10 states that \<open>chop_in_blocks\<close> applied to \<open>reassemble(A, idtodelete)\<close> returns \<open>A\<close>
  as its first block for every valid \<^verbatim>\<open>idtodelete\<close>. \<open>reassemble\<close> places the rows and
  columns of \<open>A\<close> in the order in which the kept-index set is iterated, \<open>chop_in_blocks\<close>
  reads them back in ascending order. For \<open>A = [[1,2],[3,4]]\<close> and
  \<open>idtodelete = [0,2,3,4,5,6,7]\<close> CPython iterates the kept indices as \<open>8, 1\<close>; row and
  column \<open>0\<close> of \<open>A\<close> go to index \<open>8\<close>, and the first block read back is \<open>[[4,3],[2,1]]\<close>.
\<close>

theorem reassemble_chop_set_order:
  "reassemble cpython_order_9 [[1, 2], [3, 4 :: real]] [0, 2, 3, 4, 5, 6, 7]
     = Inr [[1, 0, 0, 0, 0, 0, 0, 0, 0],
            [0, 4, 0, 0, 0, 0, 0, 0, 3],
            [0, 0, 1, 0, 0, 0, 0, 0, 0],
            [0, 0, 0, 1, 0, 0, 0, 0, 0],
            [0, 0, 0, 0, 1, 0, 0, 0, 0],
            [0, 0, 0, 0, 0, 1, 0, 0, 0],
            [0, 0, 0, 0, 0, 0, 1, 0, 0],
            [0, 0, 0, 0, 0, 0, 0, 1, 0],
            [0, 2, 0, 0, 0, 0, 0, 0, 1]]
   \<and> chop_in_blocks
         [[1, 0, 0, 0, 0, 0, 0, 0, 0],
          [0, 4, 0, 0, 0, 0, 0, 0, 3],
          [0, 0, 1, 0, 0, 0, 0, 0, 0],
          [0, 0, 0, 1, 0, 0, 0, 0, 0],
          [0, 0, 0, 0, 1, 0, 0, 0, 0],
          [0, 0, 0, 0, 0, 1, 0, 0, 0],
          [0, 0, 0, 0, 0, 0, 1, 0, 0],
          [0, 0, 0, 0, 0, 0, 0, 1, 0],
          [0, 2, 0, 0, 0, 0, 0, 0, 1 :: real]] [0, 2, 3, 4, 5, 6, 7]
     = Inr ([[4, 3], [2, 1]], replicate 2 (replicate 7 0), eye 7)"
proof -
  have "reassemble cpython_order_9 [[1, 2], [3, 4 :: real]] [0, 2, 3, 4, 5, 6, 7]
     = Inr [[1, 0, 0, 0, 0, 0, 0, 0, 0],
            [0, 4, 0, 0, 0, 0, 0, 0, 3],
            [0, 0, 1, 0, 0, 0, 0, 0, 0],
            [0, 0, 0, 1, 0, 0, 0, 0, 0],
            [0, 0, 0, 0, 1, 0, 0, 0, 0],
            [0, 0, 0, 0, 0, 1, 0, 0, 0],
            [0, 0, 0, 0, 0, 0, 1, 0, 0],
            [0, 0, 0, 0, 0, 0, 0, 1, 0],
            [0, 2, 0, 0, 0, 0, 0, 0, 1]]"
    by code_simp
  moreover have "chop_in_blocks
         [[1, 0, 0, 0, 0, 0, 0, 0, 0],
          [0, 4, 0, 0, 0, 0, 0, 0, 3],
          [0, 0, 1, 0, 0, 0, 0, 0, 0],
          [0, 0, 0, 1, 0, 0, 0, 0, 0],
          [0, 0, 0, 0, 1, 0, 0, 0, 0],
          [0, 0, 0, 0, 0, 1, 0, 0, 0],
          [0, 0, 0, 0, 0, 0, 1, 0, 0],
          [0, 0, 0, 0, 0, 0, 0, 1, 0],
          [0, 2, 0, 0, 0, 0, 0, 0, 1 :: real]] [0, 2, 3, 4, 5, 6, 7]
     = Inr ([[4, 3], [2, 1]], replicate 2 (replicate 7 0), eye 7)"
    by code_simp
  ultimately show ?thesis by (rule conjI)
qed

section \<open>Inputs, outputs and the store\<close>

text \<open>
  The loops over the store write one array only, the one just created, and leave in it
  what the loops over values compute.
\<close>

lemma store_read_old: "r < length s \<Longrightarrow> (s @ xs) ! r = s ! r"
  by (simp add: nth_append)

lemma chop_inner_st_sim:
  assumes "m \<noteq> C" and "C < length s" and "mat_of (s ! m) = M" and "s ! C = Arr2 Cm"
    and "length Cm = k" and "\<forall>r<k. length (Cm ! r) = k" and "li < k"
    and "j0 + length gs \<le> k"
  shows "chop_inner_st m C li gi (enumerate j0 gs) s =
           (case mapE (getitem2 M gi) gs of
              Inl e \<Rightarrow> Inl e
            | Inr vals \<Rightarrow>
                Inr (s[C := Arr2 (Cm[li := take j0 (Cm ! li) @ vals @ drop (j0 + length gs) (Cm ! li)])]))"
  using assms
proof (induction gs arbitrary: j0 s Cm)
  case Nil
  have "s[C := Arr2 Cm] = s" using Nil.prems(4) by (metis list_update_id)
  then show ?case by simp
next
  case (Cons g gs)
  let ?row = "Cm ! li"
  have d: "dim1 Cm = k" using Cons.prems(5,6) by (rule dim1_nth)
  have j0: "j0 < k" using Cons.prems(8) by simp
  have lrow: "length ?row = k" using Cons.prems(6,7) by simp
  show ?case
  proof (cases "getitem2 M gi g")
    case (Inl e)
    then show ?thesis using Cons.prems(3) by simp
  next
    case (Inr a)
    let ?Cm1 = "Cm[li := ?row[j0 := a]]"
    let ?s1 = "s[C := Arr2 ?Cm1]"
    have set: "setitem2 Cm li j0 a = Inr ?Cm1"
      using Cons.prems(5,7) j0 d by (simp add: setitem2_def)
    have p1: "C < length ?s1" using Cons.prems(2) by simp
    have p2: "mat_of (?s1 ! m) = M" using Cons.prems(1,3) by simp
    have p3: "?s1 ! C = Arr2 ?Cm1" using Cons.prems(2) by simp
    have p4: "length ?Cm1 = k" using Cons.prems(5) by simp
    have p5: "\<forall>r<k. length (?Cm1 ! r) = k"
      using Cons.prems(5,6,7) by (auto simp: nth_list_update)
    have p6: "Suc j0 + length gs \<le> k" using Cons.prems(8) by simp
    have IH: "chop_inner_st m C li gi (enumerate (Suc j0) gs) ?s1 =
           (case mapE (getitem2 M gi) gs of
              Inl e \<Rightarrow> Inl e
            | Inr vals \<Rightarrow>
                Inr (?s1[C := Arr2 (?Cm1[li := take (Suc j0) (?Cm1 ! li) @ vals
                                           @ drop (Suc j0 + length gs) (?Cm1 ! li)])]))"
      using Cons.IH [OF Cons.prems(1) p1 p2 p3 p4 p5 Cons.prems(7) p6] .
    have row1: "?Cm1 ! li = ?row[j0 := a]" using Cons.prems(5,7) by simp
    have tk: "take (Suc j0) (?row[j0 := a]) = take j0 ?row @ [a]"
      using j0 lrow by (simp add: take_Suc_conv_app_nth)
    have dr: "drop (Suc j0 + length gs) (?row[j0 := a]) = drop (j0 + length (g # gs)) ?row"
      by simp
    have step: "chop_inner_st m C li gi (enumerate j0 (g # gs)) s
                = chop_inner_st m C li gi (enumerate (Suc j0) gs) ?s1"
      using Inr set Cons.prems(3,4) by simp
    show ?thesis
      unfolding step IH row1 tk dr using Inr
      by (simp split: sum.splits)
  qed
qed


lemma mapE_length: "mapE f xs = Inr ys \<Longrightarrow> length ys = length xs"
  using mapE_Inr_D [of f xs ys] by simp

lemma chop_outer_st_sim:
  assumes "m \<noteq> C" and "C < length s" and "mat_of (s ! m) = M" and "s ! C = Arr2 Cm"
    and "length Cm = k" and "\<forall>r<k. length (Cm ! r) = k" and "length ids = k"
    and "i0 + length gs \<le> k"
  shows "chop_outer_st m C (enumerate i0 gs) (enumerate 0 ids) s =
           (case mapE (\<lambda>g. mapE (getitem2 M g) ids) gs of
              Inl e \<Rightarrow> Inl e
            | Inr rows \<Rightarrow> Inr (s[C := Arr2 (take i0 Cm @ rows @ drop (i0 + length gs) Cm)]))"
  using assms
proof (induction gs arbitrary: i0 s Cm)
  case Nil
  have "s[C := Arr2 Cm] = s" using Nil.prems(4) by (metis list_update_id)
  then show ?case by simp
next
  case (Cons g gs)
  have i0: "i0 < k" using Cons.prems(8) by simp
  have inner: "chop_inner_st m C i0 g (enumerate 0 ids) s =
           (case mapE (getitem2 M g) ids of
              Inl e \<Rightarrow> Inl e
            | Inr vals \<Rightarrow>
                Inr (s[C := Arr2 (Cm[i0 := take 0 (Cm ! i0) @ vals @ drop (0 + length ids) (Cm ! i0)])]))"
    using Cons.prems(1,2,3,4,5,6) i0 Cons.prems(7) by (intro chop_inner_st_sim) auto
  show ?case
  proof (cases "mapE (getitem2 M g) ids")
    case (Inl e)
    then show ?thesis using inner by simp
  next
    case (Inr vals)
    have lv: "length vals = k" using mapE_length [OF Inr] Cons.prems(7) by simp
    let ?Cm1 = "Cm[i0 := vals]"
    let ?s1 = "s[C := Arr2 ?Cm1]"
    have in1: "chop_inner_st m C i0 g (enumerate 0 ids) s = Inr ?s1"
      using inner Inr Cons.prems(6,7) i0 by simp
    have p1: "C < length ?s1" using Cons.prems(2) by simp
    have p2: "mat_of (?s1 ! m) = M" using Cons.prems(1,3) by simp
    have p3: "?s1 ! C = Arr2 ?Cm1" using Cons.prems(2) by simp
    have p4: "length ?Cm1 = k" using Cons.prems(5) by simp
    have p5: "\<forall>r<k. length (?Cm1 ! r) = k"
      using Cons.prems(5,6) lv i0 by (auto simp: nth_list_update)
    have p6: "Suc i0 + length gs \<le> k" using Cons.prems(8) by simp
    have IH: "chop_outer_st m C (enumerate (Suc i0) gs) (enumerate 0 ids) ?s1 =
           (case mapE (\<lambda>g. mapE (getitem2 M g) ids) gs of
              Inl e \<Rightarrow> Inl e
            | Inr rows \<Rightarrow>
                Inr (?s1[C := Arr2 (take (Suc i0) ?Cm1 @ rows @ drop (Suc i0 + length gs) ?Cm1)]))"
      using Cons.IH [OF Cons.prems(1) p1 p2 p3 p4 p5 Cons.prems(7) p6] .
    have tk: "take (Suc i0) ?Cm1 = take i0 Cm @ [vals]"
      using i0 Cons.prems(5) by (simp add: take_Suc_conv_app_nth)
    have dr: "drop (Suc i0 + length gs) ?Cm1 = drop (i0 + length (g # gs)) Cm"
      by simp
    have step: "chop_outer_st m C (enumerate i0 (g # gs)) (enumerate 0 ids) s
                = chop_outer_st m C (enumerate (Suc i0) gs) (enumerate 0 ids) ?s1"
      using in1 by simp
    show ?thesis
      unfolding step IH tk dr using Inr by (simp split: sum.splits)
  qed
qed

lemma chop_loops_st:
  assumes "m \<noteq> C" and "C < length s" and "mat_of (s ! m) = M"
    and "s ! C = Arr2 (replicate (length ids) (replicate (length ids) z))"
  shows "chop_outer_st m C (enumerate 0 ids) (enumerate 0 ids) s =
           (case block_C M ids of Inl e \<Rightarrow> Inl e | Inr Cm \<Rightarrow> Inr (s[C := Arr2 Cm]))"
proof -
  have "chop_outer_st m C (enumerate 0 ids) (enumerate 0 ids) s =
           (case mapE (\<lambda>g. mapE (getitem2 M g) ids) ids of
              Inl e \<Rightarrow> Inl e
            | Inr rows \<Rightarrow>
                Inr (s[C := Arr2 (take 0 (replicate (length ids) (replicate (length ids) z)) @ rows
                        @ drop (0 + length ids) (replicate (length ids) (replicate (length ids) z)))]))"
    using assms by (intro chop_outer_st_sim [where k = "length ids"]) auto
  then show ?thesis by (simp add: block_C_def split: sum.splits)
qed


lemma chop_loops_fresh:
  assumes "m < length s" and "C = length s + 5"
  shows "chop_outer_st m C (enumerate 0 ids) (enumerate 0 ids)
           (s @ [a0, a1, a2, a3, a4, Arr2 (replicate (length ids) (replicate (length ids) z))])
         = (case block_C (mat_of (s ! m)) ids of
              Inl e \<Rightarrow> Inl e
            | Inr Cm \<Rightarrow> Inr (s @ [a0, a1, a2, a3, a4, Arr2 Cm]))"
proof -
  let ?s = "s @ [a0, a1, a2, a3, a4, Arr2 (replicate (length ids) (replicate (length ids) z))]"
  have "chop_outer_st m C (enumerate 0 ids) (enumerate 0 ids) ?s =
           (case block_C (mat_of (s ! m)) ids of Inl e \<Rightarrow> Inl e | Inr Cm \<Rightarrow> Inr (?s[C := Arr2 Cm]))"
    using assms by (intro chop_loops_st [where z = z]) (auto simp: nth_append)
  moreover have "?s[C := Arr2 Cm] = s @ [a0, a1, a2, a3, a4, Arr2 Cm]" for Cm
    using assms(2) by (simp add: list_update_append)
  ultimately show ?thesis by (simp split: sum.splits)
qed

lemma chop_in_blocks_st_eq:
  assumes "m < length s"
  shows "chop_in_blocks_st m idtodelete s =
     (case np_delete0 (length (mat_of (s ! m))) (mat_of (s ! m)) idtodelete of Inl e \<Rightarrow> Inl e | Inr A0 \<Rightarrow>
     (case np_delete1 (dim1 (mat_of (s ! m))) A0 idtodelete of Inl e \<Rightarrow> Inl e | Inr A \<Rightarrow>
     (case np_take1 (dim1 (mat_of (s ! m))) (mat_of (s ! m)) idtodelete of Inl e \<Rightarrow> Inl e | Inr mcols \<Rightarrow>
     (case np_delete0 (length (mat_of (s ! m))) mcols idtodelete of Inl e \<Rightarrow> Inl e | Inr B \<Rightarrow>
     (case block_C (mat_of (s ! m)) idtodelete of Inl e \<Rightarrow> Inl e | Inr C \<Rightarrow>
        Inr ((length s + 2, length s + 4, length s + 5),
             s @ [Arr2 (mat_of (s ! m)), Arr2 A0, Arr2 A, Arr2 mcols, Arr2 B, Arr2 C]))))))"
  using assms
  by (simp add: chop_in_blocks_st_def new_array_def Let_def nth_append chop_loops_fresh
      split: sum.splits)

lemma reassemble_inner_st_sim:
  assumes "A \<noteq> newmat" and "newmat < length s" and "s ! newmat = Arr2 Nm"
  shows "reassemble_inner_st A newmat i i1 ps s =
           (case reassemble_inner (mat_of (s ! A)) i i1 ps Nm of
              Inl e \<Rightarrow> Inl e
            | Inr Nm' \<Rightarrow> Inr (s[newmat := Arr2 Nm']))"
  using assms
proof (induction ps arbitrary: s Nm)
  case Nil
  have "s[newmat := Arr2 Nm] = s" using Nil.prems(3) by (metis list_update_id)
  then show ?case by simp
next
  case (Cons p ps)
  obtain j j1 where p: "p = (j, j1)" by (cases p)
  show ?case
  proof (cases "getitem2n (mat_of (s ! A)) i j")
    case (Inl e)
    then show ?thesis using p by simp
  next
    case a: (Inr a)
    show ?thesis
    proof (cases "setitem2 Nm i1 j1 a")
      case (Inl e)
      then show ?thesis using p a Cons.prems(3) by simp
    next
      case (Inr Nm1)
      let ?s1 = "s[newmat := Arr2 Nm1]"
      have q1: "newmat < length ?s1" using Cons.prems(2) by simp
      have q2: "?s1 ! newmat = Arr2 Nm1" using Cons.prems(2) by simp
      have q3: "mat_of (?s1 ! A) = mat_of (s ! A)" using Cons.prems(1) by simp
      have "reassemble_inner_st A newmat i i1 ps ?s1 =
           (case reassemble_inner (mat_of (?s1 ! A)) i i1 ps Nm1 of
              Inl e \<Rightarrow> Inl e
            | Inr Nm' \<Rightarrow> Inr (?s1[newmat := Arr2 Nm']))"
        using Cons.IH [OF Cons.prems(1) q1 q2] .
      then show ?thesis using p a Inr Cons.prems(3) q3 by (simp split: sum.splits)
    qed
  qed
qed

lemma reassemble_outer_st_sim:
  assumes "A \<noteq> newmat" and "newmat < length s" and "s ! newmat = Arr2 Nm"
  shows "reassemble_outer_st A newmat qs ps s =
           (case reassemble_outer (mat_of (s ! A)) qs ps Nm of
              Inl e \<Rightarrow> Inl e
            | Inr Nm' \<Rightarrow> Inr (s[newmat := Arr2 Nm']))"
  using assms
proof (induction qs arbitrary: s Nm)
  case Nil
  have "s[newmat := Arr2 Nm] = s" using Nil.prems(3) by (metis list_update_id)
  then show ?case by simp
next
  case (Cons q qs)
  obtain i i1 where q: "q = (i, i1)" by (cases q)
  have inner: "reassemble_inner_st A newmat i i1 ps s =
           (case reassemble_inner (mat_of (s ! A)) i i1 ps Nm of
              Inl e \<Rightarrow> Inl e
            | Inr Nm' \<Rightarrow> Inr (s[newmat := Arr2 Nm']))"
    using Cons.prems by (rule reassemble_inner_st_sim)
  show ?case
  proof (cases "reassemble_inner (mat_of (s ! A)) i i1 ps Nm")
    case (Inl e)
    then show ?thesis using q inner by simp
  next
    case (Inr Nm1)
    let ?s1 = "s[newmat := Arr2 Nm1]"
    have q1: "newmat < length ?s1" using Cons.prems(2) by simp
    have q2: "?s1 ! newmat = Arr2 Nm1" using Cons.prems(2) by simp
    have q3: "mat_of (?s1 ! A) = mat_of (s ! A)" using Cons.prems(1) by simp
    have "reassemble_outer_st A newmat qs ps ?s1 =
           (case reassemble_outer (mat_of (?s1 ! A)) qs ps Nm1 of
              Inl e \<Rightarrow> Inl e
            | Inr Nm' \<Rightarrow> Inr (?s1[newmat := Arr2 Nm']))"
      using Cons.IH [OF Cons.prems(1) q1 q2] .
    then show ?thesis using q inner Inr q3 by (simp split: sum.splits)
  qed
qed

lemma fill_diag_st_sim:
  assumes "newmat < length s" and "s ! newmat = Arr2 Nm"
  shows "fill_diag_st newmat ids s =
           (case fill_diag ids Nm of Inl e \<Rightarrow> Inl e | Inr Nm' \<Rightarrow> Inr (s[newmat := Arr2 Nm']))"
  using assms
proof (induction ids arbitrary: s Nm)
  case Nil
  have "s[newmat := Arr2 Nm] = s" using Nil.prems(2) by (metis list_update_id)
  then show ?case by simp
next
  case (Cons i ids)
  show ?case
  proof (cases "norm_index (length Nm) i")
    case (Inl e)
    then show ?thesis using Cons.prems(2) by simp
  next
    case r: (Inr r)
    show ?thesis
    proof (cases "norm_index (dim1 Nm) i")
      case (Inl e)
      then show ?thesis using r Cons.prems(2) by simp
    next
      case (Inr c)
      let ?Nm1 = "Nm[r := (Nm ! r)[c := 1]]"
      let ?s1 = "s[newmat := Arr2 ?Nm1]"
      have q1: "newmat < length ?s1" using Cons.prems(1) by simp
      have q2: "?s1 ! newmat = Arr2 ?Nm1" using Cons.prems(1) by simp
      have "fill_diag_st newmat ids ?s1 =
           (case fill_diag ids ?Nm1 of Inl e \<Rightarrow> Inl e | Inr Nm' \<Rightarrow> Inr (?s1[newmat := Arr2 Nm']))"
        using Cons.IH [OF q1 q2] .
      then show ?thesis using r Inr Cons.prems(2) by (simp split: sum.splits)
    qed
  qed
qed

lemma reassemble_vector_loop_st_sim:
  assumes "va \<noteq> newv" and "newv < length s" and "s ! newv = Arr1 nv"
  shows "reassemble_vector_loop_st va newv ps s =
           (case reassemble_vector_loop (vec_of (s ! va)) ps nv of
              Inl e \<Rightarrow> Inl e
            | Inr nv' \<Rightarrow> Inr (s[newv := Arr1 nv']))"
  using assms
proof (induction ps arbitrary: s nv)
  case Nil
  have "s[newv := Arr1 nv] = s" using Nil.prems(3) by (metis list_update_id)
  then show ?case by simp
next
  case (Cons p ps)
  obtain j j1 where p: "p = (j, j1)" by (cases p)
  show ?case
  proof (cases "getitem1 (vec_of (s ! va)) j")
    case (Inl e)
    then show ?thesis using p by simp
  next
    case a: (Inr a)
    show ?thesis
    proof (cases "setitem1 nv j1 a")
      case (Inl e)
      then show ?thesis using p a Cons.prems(3) by simp
    next
      case (Inr nv1)
      let ?s1 = "s[newv := Arr1 nv1]"
      have q1: "newv < length ?s1" using Cons.prems(2) by simp
      have q2: "?s1 ! newv = Arr1 nv1" using Cons.prems(2) by simp
      have q3: "vec_of (?s1 ! va) = vec_of (s ! va)" using Cons.prems(1) by simp
      have "reassemble_vector_loop_st va newv ps ?s1 =
           (case reassemble_vector_loop (vec_of (?s1 ! va)) ps nv1 of
              Inl e \<Rightarrow> Inl e
            | Inr nv' \<Rightarrow> Inr (?s1[newv := Arr1 nv']))"
        using Cons.IH [OF Cons.prems(1) q1 q2] .
      then show ?thesis using p a Inr Cons.prems(3) q3 by (simp split: sum.splits)
    qed
  qed
qed

lemma mapE_zip_replicate:
  "mapE (\<lambda>(N, A). f A N) (zip (replicate (length As) E) As) = mapE (\<lambda>A. f A E) As"
  by (induction As) (simp_all cong: sum.case_cong)

lemma chop_in_blocks_multi_st_eq:
  assumes "m < length s"
  shows "chop_in_blocks_multi_st m idtodelete s =
     (case np_delete1 (dim1 (batch_of (s ! m))) (batch_of (s ! m)) idtodelete of Inl e \<Rightarrow> Inl e | Inr A0 \<Rightarrow>
     (case np_delete2 (dim2 (batch_of (s ! m))) A0 idtodelete of Inl e \<Rightarrow> Inl e | Inr A \<Rightarrow>
     (case np_take2 (dim2 (batch_of (s ! m))) (batch_of (s ! m)) idtodelete of Inl e \<Rightarrow> Inl e | Inr mcols \<Rightarrow>
     (case np_delete1 (dim1 (batch_of (s ! m))) mcols idtodelete of Inl e \<Rightarrow> Inl e | Inr B \<Rightarrow>
     (case np_take1 (dim1 (batch_of (s ! m))) (batch_of (s ! m)) idtodelete of Inl e \<Rightarrow> Inl e | Inr mrows \<Rightarrow>
     (case np_take2 (dim2 (batch_of (s ! m))) mrows idtodelete of Inl e \<Rightarrow> Inl e | Inr C \<Rightarrow>
        Inr ((length s + 2, length s + 4, length s + 6),
             s @ [Arr3 (batch_of (s ! m)), Arr3 A0, Arr3 A, Arr3 mcols, Arr3 B, Arr3 mrows, Arr3 C])))))))"
  using assms
  by (simp add: chop_in_blocks_multi_st_def new_array_def Let_def nth_append split: sum.splits)

lemma chop_in_blocks_vector_st_eq:
  assumes "v < length s"
  shows "chop_in_blocks_vector_st iter v idtodelete s =
     (case chop_in_blocks_vector iter (vec_of (s ! v)) idtodelete of
        Inl e \<Rightarrow> Inl e
      | Inr (va, vb) \<Rightarrow> Inr ((length s, length s + 1), s @ [Arr1 va, Arr1 vb]))"
  using assms
  by (simp add: chop_in_blocks_vector_st_def chop_in_blocks_vector_def new_array_def Let_def
      nth_append split: sum.splits)

lemma chop_in_blocks_vector_multi_st_eq:
  assumes "v < length s"
  shows "chop_in_blocks_vector_multi_st iter v idtodelete s =
     (case chop_in_blocks_vector_multi iter (mat_of (s ! v)) idtodelete of
        Inl e \<Rightarrow> Inl e
      | Inr (va, vb) \<Rightarrow> Inr ((length s, length s + 1), s @ [Arr2 va, Arr2 vb]))"
  using assms
  by (simp add: chop_in_blocks_vector_multi_st_def chop_in_blocks_vector_multi_def new_array_def
      Let_def nth_append split: sum.splits list.splits)

lemma reassemble_st_eq:
  assumes "A < length s"
  shows "reassemble_st iter A idtodelete s =
     (case reassemble iter (mat_of (s ! A)) idtodelete of
        Inl e \<Rightarrow> Inl e
      | Inr R \<Rightarrow> Inr (length s, s @ [Arr2 R]))"
proof -
  let ?ntot = "length (mat_of (s ! A)) + length idtodelete"
  let ?ind = "iter (arange_minus ?ntot idtodelete)"
  let ?Z = "replicate ?ntot (replicate ?ntot (0::'a))"
  let ?s1 = "s @ [Arr2 ?Z]"
  have A1: "mat_of (?s1 ! A) = mat_of (s ! A)" using assms by (simp add: nth_append)
  have loops: "reassemble_outer_st A (length s) (enumerate 0 ?ind) (enumerate 0 ?ind) ?s1 =
           (case reassemble_outer (mat_of (s ! A)) (enumerate 0 ?ind) (enumerate 0 ?ind) ?Z of
              Inl e \<Rightarrow> Inl e
            | Inr Nm' \<Rightarrow> Inr (s @ [Arr2 Nm']))"
    using reassemble_outer_st_sim [of A "length s" ?s1 ?Z "enumerate 0 ?ind" "enumerate 0 ?ind"]
      assms A1 by (simp cong: sum.case_cong)
  have diag: "fill_diag_st (length s) idtodelete (s @ [Arr2 Nm]) =
           (case fill_diag idtodelete Nm of Inl e \<Rightarrow> Inl e | Inr Nm' \<Rightarrow> Inr (s @ [Arr2 Nm']))" for Nm
    using fill_diag_st_sim [of "length s" "s @ [Arr2 Nm]" Nm idtodelete]
    by (simp cong: sum.case_cong)
  show ?thesis
    by (simp add: reassemble_st_def reassemble_def new_array_def Let_def loops diag
        split: sum.splits)
qed

lemma reassemble_vector_st_eq:
  assumes "va < length s"
  shows "reassemble_vector_st iter va idtodelete s =
     (case reassemble_vector iter (vec_of (s ! va)) idtodelete of
        Inl e \<Rightarrow> Inl e
      | Inr R \<Rightarrow> Inr (length s, s @ [Arr1 R]))"
proof -
  let ?ntot = "length (vec_of (s ! va)) + length idtodelete"
  let ?ind = "iter (arange_minus ?ntot idtodelete)"
  let ?Z = "replicate ?ntot (0::'a)"
  let ?s1 = "s @ [Arr1 ?Z]"
  have A1: "vec_of (?s1 ! va) = vec_of (s ! va)" using assms by (simp add: nth_append)
  have loops: "reassemble_vector_loop_st va (length s) (enumerate 0 ?ind) ?s1 =
           (case reassemble_vector_loop (vec_of (s ! va)) (enumerate 0 ?ind) ?Z of
              Inl e \<Rightarrow> Inl e
            | Inr nv' \<Rightarrow> Inr (s @ [Arr1 nv']))"
    using reassemble_vector_loop_st_sim [of va "length s" ?s1 ?Z "enumerate 0 ?ind"]
      assms A1 by (simp cong: sum.case_cong)
  show ?thesis
    by (simp add: reassemble_vector_st_def reassemble_vector_def new_array_def Let_def loops
        split: sum.splits)
qed

lemma reassemble_multi_st_eq:
  assumes "A < length s"
  shows "reassemble_multi_st iter A idtodelete s =
     (case reassemble_multi iter (batch_of (s ! A)) idtodelete of
        Inl e \<Rightarrow> Inl e
      | Inr R \<Rightarrow>
          Inr (length s + 1,
               s @ [Arr2 (eye (dim1 (batch_of (s ! A)) + length idtodelete)), Arr3 R]))"
proof (cases "batch_of (s ! A)")
  case Nil
  then show ?thesis by (simp add: reassemble_multi_st_def reassemble_multi_def)
next
  case (Cons A0 rest)
  let ?ntot = "length A0 + length idtodelete"
  let ?ind = "iter (arange_minus ?ntot idtodelete)"
  have z: "mapE (\<lambda>(Nw, Aw). reassemble_outer (broadcast2 (length ?ind) Aw)
                                    (enumerate 0 ?ind) (enumerate 0 ?ind) Nw)
             (zip (replicate (length (A0 # rest)) (eye ?ntot)) (A0 # rest))
           = mapE (\<lambda>Aw. reassemble_outer (broadcast2 (length ?ind) Aw)
                                    (enumerate 0 ?ind) (enumerate 0 ?ind) (eye ?ntot)) (A0 # rest)"
    by (rule mapE_zip_replicate)
  show ?thesis
    using assms Cons z
    by (simp add: reassemble_multi_st_def reassemble_multi_def new_array_def Let_def nth_append
        dim1_def list_update_append split: sum.splits)
qed

lemma reassemble_vector_multi_st_eq:
  assumes "va < length s"
  shows "reassemble_vector_multi_st iter va idtodelete s =
     (case reassemble_vector_multi iter (mat_of (s ! va)) idtodelete of
        Inl e \<Rightarrow> Inl e
      | Inr R \<Rightarrow> Inr (length s, s @ [Arr2 R]))"
proof (cases "mat_of (s ! va)")
  case Nil
  then show ?thesis by (simp add: reassemble_vector_multi_st_def reassemble_vector_multi_def)
next
  case (Cons va0 rest)
  let ?ntot = "length va0 + length idtodelete"
  let ?ind = "iter (arange_minus ?ntot idtodelete)"
  have z: "mapE (\<lambda>(nw, vw). reassemble_vector_loop (broadcast1 (length ?ind) vw)
                                    (enumerate 0 ?ind) nw)
             (zip (replicate (length (va0 # rest)) (replicate ?ntot 0)) (va0 # rest))
           = mapE (\<lambda>vw. reassemble_vector_loop (broadcast1 (length ?ind) vw)
                                    (enumerate 0 ?ind) (replicate ?ntot 0)) (va0 # rest)"
    by (rule mapE_zip_replicate)
  show ?thesis
    using assms Cons z
    by (simp add: reassemble_vector_multi_st_def reassemble_vector_multi_def new_array_def Let_def
        nth_append list_update_append split: sum.splits)
qed

lemma chop_in_blocks_st_fresh:
  assumes "m < length s"
  shows "(case chop_in_blocks_st m idtodelete s of
            Inl e \<Rightarrow> chop_in_blocks (mat_of (s ! m)) idtodelete = Inl e
          | Inr ((A, B, C), s') \<Rightarrow>
              fresh_call s [A, B, C] s'
              \<and> chop_in_blocks (mat_of (s ! m)) idtodelete
                  = Inr (mat_of (s' ! A), mat_of (s' ! B), mat_of (s' ! C)))"
  unfolding chop_in_blocks_st_eq [OF assms] chop_in_blocks_def
  by (simp add: fresh_call_def nth_append split: sum.splits)

lemma chop_in_blocks_multi_st_fresh:
  assumes "m < length s"
  shows "(case chop_in_blocks_multi_st m idtodelete s of
            Inl e \<Rightarrow> chop_in_blocks_multi (batch_of (s ! m)) idtodelete = Inl e
          | Inr ((A, B, C), s') \<Rightarrow>
              fresh_call s [A, B, C] s'
              \<and> chop_in_blocks_multi (batch_of (s ! m)) idtodelete
                  = Inr (batch_of (s' ! A), batch_of (s' ! B), batch_of (s' ! C)))"
  unfolding chop_in_blocks_multi_st_eq [OF assms] chop_in_blocks_multi_def
  by (simp add: fresh_call_def nth_append split: sum.splits)

lemma chop_in_blocks_vector_st_fresh:
  assumes "v < length s"
  shows "(case chop_in_blocks_vector_st iter v idtodelete s of
            Inl e \<Rightarrow> chop_in_blocks_vector iter (vec_of (s ! v)) idtodelete = Inl e
          | Inr ((va, vb), s') \<Rightarrow>
              fresh_call s [va, vb] s'
              \<and> chop_in_blocks_vector iter (vec_of (s ! v)) idtodelete
                  = Inr (vec_of (s' ! va), vec_of (s' ! vb)))"
  unfolding chop_in_blocks_vector_st_eq [OF assms]
  by (simp add: fresh_call_def nth_append split: sum.splits)

lemma chop_in_blocks_vector_multi_st_fresh:
  assumes "v < length s"
  shows "(case chop_in_blocks_vector_multi_st iter v idtodelete s of
            Inl e \<Rightarrow> chop_in_blocks_vector_multi iter (mat_of (s ! v)) idtodelete = Inl e
          | Inr ((va, vb), s') \<Rightarrow>
              fresh_call s [va, vb] s'
              \<and> chop_in_blocks_vector_multi iter (mat_of (s ! v)) idtodelete
                  = Inr (mat_of (s' ! va), mat_of (s' ! vb)))"
  unfolding chop_in_blocks_vector_multi_st_eq [OF assms]
  by (simp add: fresh_call_def nth_append split: sum.splits)

lemma reassemble_st_fresh:
  assumes "A < length s"
  shows "(case reassemble_st iter A idtodelete s of
            Inl e \<Rightarrow> reassemble iter (mat_of (s ! A)) idtodelete = Inl e
          | Inr (newmat, s') \<Rightarrow>
              fresh_call s [newmat] s'
              \<and> reassemble iter (mat_of (s ! A)) idtodelete = Inr (mat_of (s' ! newmat)))"
  unfolding reassemble_st_eq [OF assms]
  by (simp add: fresh_call_def nth_append split: sum.splits)

lemma reassemble_multi_st_fresh:
  assumes "A < length s"
  shows "(case reassemble_multi_st iter A idtodelete s of
            Inl e \<Rightarrow> reassemble_multi iter (batch_of (s ! A)) idtodelete = Inl e
          | Inr (newmat, s') \<Rightarrow>
              fresh_call s [newmat] s'
              \<and> reassemble_multi iter (batch_of (s ! A)) idtodelete = Inr (batch_of (s' ! newmat)))"
  unfolding reassemble_multi_st_eq [OF assms]
  by (simp add: fresh_call_def nth_append split: sum.splits)

lemma reassemble_vector_st_fresh:
  assumes "va < length s"
  shows "(case reassemble_vector_st iter va idtodelete s of
            Inl e \<Rightarrow> reassemble_vector iter (vec_of (s ! va)) idtodelete = Inl e
          | Inr (newv, s') \<Rightarrow>
              fresh_call s [newv] s'
              \<and> reassemble_vector iter (vec_of (s ! va)) idtodelete = Inr (vec_of (s' ! newv)))"
  unfolding reassemble_vector_st_eq [OF assms]
  by (simp add: fresh_call_def nth_append split: sum.splits)

lemma reassemble_vector_multi_st_fresh:
  assumes "va < length s"
  shows "(case reassemble_vector_multi_st iter va idtodelete s of
            Inl e \<Rightarrow> reassemble_vector_multi iter (mat_of (s ! va)) idtodelete = Inl e
          | Inr (newv, s') \<Rightarrow>
              fresh_call s [newv] s'
              \<and> reassemble_vector_multi iter (mat_of (s ! va)) idtodelete = Inr (mat_of (s' ! newv)))"
  unfolding reassemble_vector_multi_st_eq [OF assms]
  by (simp add: fresh_call_def nth_append split: sum.splits)


text \<open>
  C9. Each of the eight operations, started in a store \<open>s\<close> that holds its input array,
  either fails, exactly when the function over values fails and with the same error, or
  returns references and a store \<open>s'\<close> such that: every array of \<open>s\<close>, the input among
  them, is in \<open>s'\<close> unchanged; the returned references are distinct and refer to arrays
  that did not exist in \<open>s\<close>, so that a later assignment through an output reference
  cannot change an input, nor one through an input reference an output; and the arrays
  at the returned references hold what the function over values returns.
\<close>

theorem operations_fresh_outputs:
  assumes "m < length s" and "mb < length s" and "v < length s" and "vb < length s"
    and "A < length s" and "Ab < length s" and "va < length s" and "vab < length s"
  shows "(case chop_in_blocks_st m idtodelete s of
            Inl e \<Rightarrow> chop_in_blocks (mat_of (s ! m)) idtodelete = Inl e
          | Inr ((A', B', C'), s') \<Rightarrow>
              fresh_call s [A', B', C'] s'
              \<and> chop_in_blocks (mat_of (s ! m)) idtodelete
                  = Inr (mat_of (s' ! A'), mat_of (s' ! B'), mat_of (s' ! C')))
       \<and> (case chop_in_blocks_multi_st mb idtodelete s of
            Inl e \<Rightarrow> chop_in_blocks_multi (batch_of (s ! mb)) idtodelete = Inl e
          | Inr ((A', B', C'), s') \<Rightarrow>
              fresh_call s [A', B', C'] s'
              \<and> chop_in_blocks_multi (batch_of (s ! mb)) idtodelete
                  = Inr (batch_of (s' ! A'), batch_of (s' ! B'), batch_of (s' ! C')))
       \<and> (case chop_in_blocks_vector_st iter v idtodelete s of
            Inl e \<Rightarrow> chop_in_blocks_vector iter (vec_of (s ! v)) idtodelete = Inl e
          | Inr ((va', vb'), s') \<Rightarrow>
              fresh_call s [va', vb'] s'
              \<and> chop_in_blocks_vector iter (vec_of (s ! v)) idtodelete
                  = Inr (vec_of (s' ! va'), vec_of (s' ! vb')))
       \<and> (case chop_in_blocks_vector_multi_st iter vb idtodelete s of
            Inl e \<Rightarrow> chop_in_blocks_vector_multi iter (mat_of (s ! vb)) idtodelete = Inl e
          | Inr ((va', vb'), s') \<Rightarrow>
              fresh_call s [va', vb'] s'
              \<and> chop_in_blocks_vector_multi iter (mat_of (s ! vb)) idtodelete
                  = Inr (mat_of (s' ! va'), mat_of (s' ! vb')))
       \<and> (case reassemble_st iter A idtodelete s of
            Inl e \<Rightarrow> reassemble iter (mat_of (s ! A)) idtodelete = Inl e
          | Inr (newmat, s') \<Rightarrow>
              fresh_call s [newmat] s'
              \<and> reassemble iter (mat_of (s ! A)) idtodelete = Inr (mat_of (s' ! newmat)))
       \<and> (case reassemble_multi_st iter Ab idtodelete s of
            Inl e \<Rightarrow> reassemble_multi iter (batch_of (s ! Ab)) idtodelete = Inl e
          | Inr (newmat, s') \<Rightarrow>
              fresh_call s [newmat] s'
              \<and> reassemble_multi iter (batch_of (s ! Ab)) idtodelete = Inr (batch_of (s' ! newmat)))
       \<and> (case reassemble_vector_st iter va idtodelete s of
            Inl e \<Rightarrow> reassemble_vector iter (vec_of (s ! va)) idtodelete = Inl e
          | Inr (newv, s') \<Rightarrow>
              fresh_call s [newv] s'
              \<and> reassemble_vector iter (vec_of (s ! va)) idtodelete = Inr (vec_of (s' ! newv)))
       \<and> (case reassemble_vector_multi_st iter vab idtodelete s of
            Inl e \<Rightarrow> reassemble_vector_multi iter (mat_of (s ! vab)) idtodelete = Inl e
          | Inr (newv, s') \<Rightarrow>
              fresh_call s [newv] s'
              \<and> reassemble_vector_multi iter (mat_of (s ! vab)) idtodelete = Inr (mat_of (s' ! newv)))"
  using chop_in_blocks_st_fresh [OF assms(1)] chop_in_blocks_multi_st_fresh [OF assms(2)]
    chop_in_blocks_vector_st_fresh [OF assms(3)] chop_in_blocks_vector_multi_st_fresh [OF assms(4)]
    reassemble_st_fresh [OF assms(5)] reassemble_multi_st_fresh [OF assms(6)]
    reassemble_vector_st_fresh [OF assms(7)] reassemble_vector_multi_st_fresh [OF assms(8)]
  by (intro conjI)

theorem operations_fresh_outputs_witness:
  "(\<exists>A B C s'. chop_in_blocks_st 0 [1] example_store = Inr ((A, B, C), s')
        \<and> fresh_call example_store [A, B, C] s')
   \<and> (\<exists>A B C s'. chop_in_blocks_multi_st 1 [1] example_store = Inr ((A, B, C), s')
        \<and> fresh_call example_store [A, B, C] s')
   \<and> (\<exists>va vb s'. chop_in_blocks_vector_st (\<lambda>ks. ks) 2 [1] example_store = Inr ((va, vb), s')
        \<and> fresh_call example_store [va, vb] s')
   \<and> (\<exists>va vb s'. chop_in_blocks_vector_multi_st (\<lambda>ks. ks) 3 [1] example_store = Inr ((va, vb), s')
        \<and> fresh_call example_store [va, vb] s')
   \<and> (\<exists>newmat s'. reassemble_st (\<lambda>ks. ks) 4 [1] example_store = Inr (newmat, s')
        \<and> fresh_call example_store [newmat] s')
   \<and> (\<exists>newmat s'. reassemble_multi_st (\<lambda>ks. ks) 5 [1] example_store = Inr (newmat, s')
        \<and> fresh_call example_store [newmat] s')
   \<and> (\<exists>newv s'. reassemble_vector_st (\<lambda>ks. ks) 6 [1] example_store = Inr (newv, s')
        \<and> fresh_call example_store [newv] s')
   \<and> (\<exists>newv s'. reassemble_vector_multi_st (\<lambda>ks. ks) 7 [1] example_store = Inr (newv, s')
        \<and> fresh_call example_store [newv] s')"
proof -
  have r: "\<not> isl (chop_in_blocks_st 0 [1] example_store)"
      "\<not> isl (chop_in_blocks_multi_st 1 [1] example_store)"
      "\<not> isl (chop_in_blocks_vector_st (\<lambda>ks. ks) 2 [1] example_store)"
      "\<not> isl (chop_in_blocks_vector_multi_st (\<lambda>ks. ks) 3 [1] example_store)"
      "\<not> isl (reassemble_st (\<lambda>ks. ks) 4 [1] example_store)"
      "\<not> isl (reassemble_multi_st (\<lambda>ks. ks) 5 [1] example_store)"
      "\<not> isl (reassemble_vector_st (\<lambda>ks. ks) 6 [1] example_store)"
      "\<not> isl (reassemble_vector_multi_st (\<lambda>ks. ks) 7 [1] example_store)"
    by code_simp+
  have len: "length example_store = 8" by (simp add: example_store_def)
  show ?thesis
    using operations_fresh_outputs [where s = example_store and m = 0 and mb = 1 and v = 2
        and vb = 3 and A = 4 and Ab = 5 and va = 6 and vab = 7 and idtodelete = "[1]"
        and iter = "\<lambda>ks. ks"] r
    unfolding len
    by (auto split: sum.splits)
qed

end
